theory Spec2Isabelle
  imports Main "HOL-Library.Sublist" "HOL-Library.Multiset"
begin

section \<open>JavaScript strings\<close>

text \<open>
  A JavaScript string is a sequence of code units. The model uses \<open>string\<close>, reading a
  \<open>char\<close> as a code unit in the range 0..255 (Latin-1); code units above 255 are outside
  the model. Every regular expression and every literal of \<^verbatim>\<open>src/app.js\<close> that the
  functions below embed is ASCII.
\<close>

text \<open>
  \<^verbatim>\<open>String.prototype.toLowerCase\<close> on Latin-1: A..Z (65..90) and the letters 192..222
  except the multiplication sign 215 move up by 32, which sets bit 5; every other code
  unit stays.
\<close>

fun lowerChar :: "char \<Rightarrow> char" where
  "lowerChar (Char b0 b1 b2 b3 b4 b5 b6 b7) =
     (let n = (of_char (Char b0 b1 b2 b3 b4 b5 b6 b7) :: nat) in
      if (65 \<le> n \<and> n \<le> 90) \<or> (192 \<le> n \<and> n \<le> 222 \<and> n \<noteq> 215)
      then Char b0 b1 b2 b3 b4 True b6 b7
      else Char b0 b1 b2 b3 b4 b5 b6 b7)"

definition toLowerCase :: "string \<Rightarrow> string" where
  "toLowerCase s = map lowerChar s"

text \<open>
  White space and line terminators of ECMAScript below 256: tab, line feed, vertical tab,
  form feed, carriage return, space and the no-break space 160.
\<close>

definition isWhiteSpace :: "char \<Rightarrow> bool" where
  "isWhiteSpace c = ((of_char c :: nat) \<in> {9, 10, 11, 12, 13, 32, 160})"

definition trim :: "string \<Rightarrow> string" where
  "trim s = rev (dropWhile isWhiteSpace (rev (dropWhile isWhiteSpace s)))"

definition startsWith :: "string \<Rightarrow> string \<Rightarrow> bool" where
  "startsWith s p = (take (length p) s = p)"

definition endsWith :: "string \<Rightarrow> string \<Rightarrow> bool" where
  "endsWith s p = (length p \<le> length s \<and> drop (length s - length p) s = p)"

text \<open>\<^verbatim>\<open>s.split(c)[0]\<close>: the part of \<open>s\<close> before the first \<open>c\<close>, all of \<open>s\<close> when there is none.\<close>

definition splitFirst :: "char \<Rightarrow> string \<Rightarrow> string" where
  "splitFirst c s = takeWhile (\<lambda>d. d \<noteq> c) s"

definition isDigit :: "char \<Rightarrow> bool" where
  "isDigit c = (c \<in> set ''0123456789'')"

text \<open>The value of a string of decimal digits, most significant digit first.\<close>

definition digitVal :: "char \<Rightarrow> nat" where
  "digitVal c = (of_char c :: nat) - 48"

definition parseDigits :: "string \<Rightarrow> nat" where
  "parseDigits ds = foldl (\<lambda>n c. 10 * n + digitVal c) 0 ds"

section \<open>Plain objects as ordered dictionaries\<close>

text \<open>
  \<^verbatim>\<open>groups\<close> is a plain object used as a dictionary. The model keeps its own properties as
  an association list in insertion order. \<^verbatim>\<open>Object.values\<close>, \<^verbatim>\<open>Object.entries\<close> and
  \<^verbatim>\<open>Object.keys\<close> enumerate the array-index keys first (canonical decimal strings of the
  integers below \<open>2^32 - 1\<close>), in ascending numeric order, then every other key in insertion
  order.
\<close>

definition isArrayIndex :: "string \<Rightarrow> bool" where
  "isArrayIndex k =
     (k \<noteq> [] \<and> list_all isDigit k \<and> (k = ''0'' \<or> hd k \<noteq> CHR ''0'') \<and>
      parseDigits k < 4294967295)"

definition objectEntries :: "(string \<times> 'a) list \<Rightarrow> (string \<times> 'a) list" where
  "objectEntries kvs =
     sort_key (\<lambda>kv. parseDigits (fst kv)) (filter (\<lambda>kv. isArrayIndex (fst kv)) kvs) @
     filter (\<lambda>kv. \<not> isArrayIndex (fst kv)) kvs"

definition objectValues :: "(string \<times> 'a) list \<Rightarrow> 'a list" where
  "objectValues kvs = map snd (objectEntries kvs)"

section \<open>The session's link inventory\<close>

text \<open>
  A Link object as \<^verbatim>\<open>analyzeHtml\<close> builds it. The field \<^verbatim>\<open>id\<close> is \<open>id'\<close> and
  \<^verbatim>\<open>context\<close> is \<open>context'\<close> here.
\<close>

record link =
  id' :: nat
  rawIndex :: nat
  href :: string
  normalizedHref :: string
  anchorText :: string
  isImageLink :: bool
  isCtaLink :: bool
  isInHeading :: bool
  isExternal :: bool
  parentTag :: string
  context' :: string
  keep :: bool
  rel :: string

text \<open>
  \<^verbatim>\<open>state.links\<close> and every \<^verbatim>\<open>group.links\<close> hold references to the same Link objects, and
  \<^verbatim>\<open>applyAutoStrip\<close> and \<^verbatim>\<open>toggleLink\<close> mutate those objects in place. The model makes the
  sharing explicit: a reference is a number, \<open>heap\<close> maps every reference to the object it
  denotes (a reference never dangles in JavaScript, so the map is total), and the arrays
  are lists of references.
\<close>

type_synonym ref = nat

record group =
  g_normalizedHref :: string
  originalHref :: string
  g_links :: "ref list"
  imageCount :: nat
  textCount :: nat
  ctaCount :: nat
  inHeadingCount :: nat

text \<open>
  The part of the global \<^verbatim>\<open>state\<close> that the decision engine and the toggle read and write:
  the Link objects, \<^verbatim>\<open>state.links\<close> and \<^verbatim>\<open>state.groups\<close>.
\<close>

record state =
  heap :: "ref \<Rightarrow> link"
  links :: "ref list"
  groups :: "(string \<times> group) list"

section \<open>Auto-strip\<close>

definition hasDifferentAnchors :: "link list \<Rightarrow> bool" where
  "hasDifferentAnchors textLinks =
     (if length textLinks < 2 then False
      else (let normalized = map (\<lambda>l. trim (toLowerCase (anchorText l))) textLinks
            in length (remdups normalized) > 1))"

text \<open>\<^verbatim>\<open>group.links.forEach(l => l.keep = true)\<close>\<close>

fun keepEach :: "(ref \<Rightarrow> link) \<Rightarrow> ref list \<Rightarrow> (ref \<Rightarrow> link)" where
  "keepEach h [] = h"
| "keepEach h (r # rs) = keepEach (h(r := (h r)\<lparr>keep := True\<rparr>)) rs"

text \<open>The \<^verbatim>\<open>for (const link of group.links)\<close> loop of the else branch, with its flag \<^verbatim>\<open>firstTextKept\<close>.\<close>

fun keepFirstText :: "bool \<Rightarrow> (ref \<Rightarrow> link) \<Rightarrow> ref list \<Rightarrow> (ref \<Rightarrow> link)" where
  "keepFirstText firstTextKept h [] = h"
| "keepFirstText firstTextKept h (r # rs) =
     (if isImageLink (h r) \<or> isCtaLink (h r)
      then keepFirstText firstTextKept (h(r := (h r)\<lparr>keep := True\<rparr>)) rs
      else if \<not> firstTextKept
      then keepFirstText True (h(r := (h r)\<lparr>keep := True\<rparr>)) rs
      else keepFirstText firstTextKept (h(r := (h r)\<lparr>keep := False\<rparr>)) rs)"

text \<open>The body of the loop over the groups.\<close>

definition stripGroup :: "(ref \<Rightarrow> link) \<Rightarrow> group \<Rightarrow> (ref \<Rightarrow> link)" where
  "stripGroup h g =
     (let textLinks = filter (\<lambda>r. \<not> isImageLink (h r) \<and> \<not> isCtaLink (h r)) (g_links g)
      in if length textLinks = 2 \<and> hasDifferentAnchors (map h textLinks)
         then keepEach h (g_links g)
         else keepFirstText False h (g_links g))"

definition applyAutoStrip :: "state \<Rightarrow> state" where
  "applyAutoStrip s = s\<lparr>heap := foldl stripGroup (heap s) (objectValues (groups s))\<rparr>"

definition applyKeepAll :: "state \<Rightarrow> state" where
  "applyKeepAll s = s\<lparr>heap := keepEach (heap s) (links s)\<rparr>"

section \<open>Toggling one link\<close>

text \<open>
  \<^verbatim>\<open>toggleLink\<close> up to the flip of \<^verbatim>\<open>link.keep\<close>. The calls that follow it (the message to
  the preview frame, \<^verbatim>\<open>renderStats\<close>, \<^verbatim>\<open>renderCleanOutput\<close>, \<^verbatim>\<open>renderChanges\<close>) read the
  Link objects and write the page; none of them writes a Link, \<^verbatim>\<open>state.links\<close> or
  \<^verbatim>\<open>state.groups\<close>. The early \<^verbatim>\<open>return\<close> runs none of them.
\<close>

definition toggleLink :: "state \<Rightarrow> nat \<Rightarrow> state" where
  "toggleLink s i =
     (case find (\<lambda>r. id' (heap s r) = i) (links s) of
        None \<Rightarrow> s
      | Some r \<Rightarrow>
          if isImageLink (heap s r) \<or> isCtaLink (heap s r) then s
          else s\<lparr>heap := (heap s)(r := (heap s r)\<lparr>keep := \<not> keep (heap s r)\<rparr>)\<rparr>)"

section \<open>URL normalization\<close>

text \<open>
  \<^verbatim>\<open>new URL(href, 'https://placeholder.com')\<close> is the platform's URL parser, not code of
  this repository. The functions that call it take it as the parameter \<open>newURL\<close>: it
  returns the parsed URL, of which the code reads \<^verbatim>\<open>pathname\<close> and \<^verbatim>\<open>hostname\<close>, or throws
  a \<^verbatim>\<open>TypeError\<close>.
\<close>

datatype js_error = TypeError

record url =
  pathname :: string
  hostname :: string

type_synonym url_parser = "string \<Rightarrow> js_error + url"

text \<open>
  The \<^verbatim>\<open>try\<close> block of \<^verbatim>\<open>normalizeUrl\<close>, on the trimmed href \<open>h\<close>. \<^verbatim>\<open>path.slice(0, -1)\<close> is
  \<open>butlast\<close>; \<^verbatim>\<open>path || href.toLowerCase()\<close> takes the second string when \<open>path\<close> is empty.
\<close>

definition normalizeUrlTry :: "url_parser \<Rightarrow> string \<Rightarrow> js_error + string option" where
  "normalizeUrlTry newURL h =
     (case (if startsWith h ''http://'' \<or> startsWith h ''https://'' \<or> startsWith h ''//''
            then (case newURL h of Inl e \<Rightarrow> Inl e | Inr u \<Rightarrow> Inr (pathname u))
            else Inr (splitFirst CHR ''#'' (splitFirst CHR ''?'' h))) of
        Inl e \<Rightarrow> Inl e
      | Inr path0 \<Rightarrow>
          (let path1 = toLowerCase path0;
               path2 = (if length path1 > 1 \<and> endsWith path1 ''/'' then butlast path1 else path1)
           in Inr (Some (if path2 \<noteq> [] then path2 else toLowerCase h))))"

text \<open>
  \<^verbatim>\<open>normalizeUrl\<close>: \<open>None\<close> is \<^verbatim>\<open>null\<close>. The \<^verbatim>\<open>catch\<close> clause turns every error of the
  \<^verbatim>\<open>try\<close> block into the literal fallback; the result type keeps the error summand so
  that "does not throw" is a statement about the function.
\<close>

definition normalizeUrl :: "url_parser \<Rightarrow> string \<Rightarrow> js_error + string option" where
  "normalizeUrl newURL href0 =
     (if href0 = [] then Inr None
      else (let h = trim href0 in
        if h = [] \<or> h = ''#'' \<or> startsWith h ''javascript:'' \<or>
           startsWith h ''mailto:'' \<or> startsWith h ''tel:''
        then Inr None
        else (case normalizeUrlTry newURL h of
                Inr r \<Rightarrow> Inr r
              | Inl e \<Rightarrow> Inr (Some (splitFirst CHR ''#'' (splitFirst CHR ''?'' (toLowerCase h)))))))"

text \<open>
  A stand-in for the platform's parser, for the closed examples below only (every theorem
  about \<open>normalizeUrl\<close> holds for an arbitrary \<open>newURL\<close>). It reads an absolute or
  scheme-relative http(s) URL as scheme, host, path, query and fragment, and resolves
  anything else as a path against \<^verbatim>\<open>https://placeholder.com\<close>; an empty host is an
  error. Ports, credentials, dot segments, back slashes and percent-encoding are not
  modelled.
\<close>

definition basicURL :: url_parser where
  "basicURL h =
     (let rest = (if startsWith h ''https://'' then Some (drop 8 h)
                  else if startsWith h ''http://'' then Some (drop 7 h)
                  else if startsWith h ''//'' then Some (drop 2 h)
                  else None)
      in case rest of
           None \<Rightarrow>
             (let p = splitFirst CHR ''#'' (splitFirst CHR ''?'' h)
              in Inr \<lparr>pathname = (if startsWith p ''/'' then p else ''/'' @ p),
                      hostname = ''placeholder.com''\<rparr>)
         | Some r \<Rightarrow>
             (let host = takeWhile (\<lambda>c. c \<notin> set ''/?#'') r;
                  p = splitFirst CHR ''#'' (splitFirst CHR ''?'' (dropWhile (\<lambda>c. c \<notin> set ''/?#'') r))
              in if host = [] then Inl TypeError
                 else Inr \<lparr>pathname = (if p = [] then ''/'' else p),
                          hostname = toLowerCase host\<rparr>))"

section \<open>Template syntax protection\<close>

text \<open>The decimal digits of a number, as \<^verbatim>\<open>`${idx}`\<close> prints a non-negative integer.\<close>

fun showNat :: "nat \<Rightarrow> string" where
  "showNat n =
     (if n < 10 then [''0123456789'' ! n]
      else showNat (n div 10) @ [''0123456789'' ! (n mod 10)])"

declare showNat.simps [simp del]

text \<open>The replacement \<^verbatim>\<open>`__SRLC_TPL_${idx}__`\<close>.\<close>

definition tplToken :: "nat \<Rightarrow> string" where
  "tplToken idx = ''__SRLC_TPL_'' @ showNat idx @ ''__''"

text \<open>
  The regular expression \<^verbatim>\<open>/\{\{(?:[^}]|\}(?!\}))*\}\}/\<close> at the start of a string.
  \<open>tplBody acc s\<close> runs the starred group after the opening braces, \<open>acc\<close> being the text
  matched so far: the group takes any code unit other than \<^verbatim>\<open>}\<close>, and a \<^verbatim>\<open>}\<close> that is not
  followed by \<^verbatim>\<open>}\<close>; it stops in front of \<^verbatim>\<open>}}\<close>, which the rest of the expression then
  matches, and at the end of the input, where the match fails (backtracking cannot help:
  no position the group has passed starts with \<^verbatim>\<open>}}\<close>). The result is the matched text
  and the input after it.
\<close>

fun tplBody :: "string \<Rightarrow> string \<Rightarrow> (string \<times> string) option" where
  "tplBody acc [] = None"
| "tplBody acc (c # cs) =
     (if c \<noteq> CHR ''}'' then tplBody (acc @ [c]) cs
      else (case cs of
              [] \<Rightarrow> tplBody (acc @ [c]) cs
            | d # ds \<Rightarrow> if d = CHR ''}'' then Some (acc @ ''}}'', ds) else tplBody (acc @ [c]) cs))"

definition matchTemplate :: "string \<Rightarrow> (string \<times> string) option" where
  "matchTemplate s = (if startsWith s ''{{'' then tplBody ''{{'' (drop 2 s) else None)"

lemma tplBody_splits: "tplBody acc s = Some (m, rest) \<Longrightarrow> acc @ s = m @ rest"
  by (induction acc s rule: tplBody.induct) (auto split: if_splits list.splits)

lemma tplBody_length: "tplBody acc s = Some (m, rest) \<Longrightarrow> length rest < length s"
  by (induction acc s rule: tplBody.induct) (auto split: if_splits list.splits)

lemma matchTemplate_splits: "matchTemplate s = Some (m, rest) \<Longrightarrow> s = m @ rest"
proof -
  assume a: "matchTemplate s = Some (m, rest)"
  then have "startsWith s ''{{''" and "tplBody ''{{'' (drop 2 s) = Some (m, rest)"
    by (auto simp: matchTemplate_def split: if_splits)
  then have "take 2 s = ''{{''" and "''{{'' @ drop 2 s = m @ rest"
    by (auto simp: startsWith_def numeral_2_eq_2 dest: tplBody_splits)
  then show ?thesis by (metis append_take_drop_id)
qed

lemma matchTemplate_length: "matchTemplate s = Some (m, rest) \<Longrightarrow> length rest < length s"
  by (auto simp: matchTemplate_def split: if_splits dest!: tplBody_length)

text \<open>
  \<^verbatim>\<open>html.replace(/.../g, callback)\<close> in \<^verbatim>\<open>protectTemplateSyntax\<close>: the scan goes left to
  right; at a match the callback pushes the matched text onto \<^verbatim>\<open>placeholders\<close> and returns
  the token with the index the text got, and the scan goes on after the match; elsewhere
  the code unit is copied. The result is the new text and the final placeholder list.
\<close>

function protectFrom :: "string list \<Rightarrow> string \<Rightarrow> string \<times> string list" where
  "protectFrom placeholders [] = ([], placeholders)"
| "protectFrom placeholders (c # cs) =
     (case matchTemplate (c # cs) of
        Some (m, rest) \<Rightarrow>
          (let (out, ps) = protectFrom (placeholders @ [m]) rest
           in (tplToken (length placeholders) @ out, ps))
      | None \<Rightarrow>
          (let (out, ps) = protectFrom placeholders cs
           in (c # out, ps)))"
  by pat_completeness auto
termination
  by (relation "measure (\<lambda>(ps, s). length s)") (auto dest: matchTemplate_length)

text \<open>The pair is the returned object \<^verbatim>\<open>{ html, placeholders }\<close>.\<close>

definition protectTemplateSyntax :: "string \<Rightarrow> string \<times> string list" where
  "protectTemplateSyntax html = protectFrom [] html"

text \<open>
  The regular expression \<^verbatim>\<open>/__SRLC_TPL_(\d+)__/\<close> at the start of a string: the captured
  digits and the input after the match. \<^verbatim>\<open>\d+\<close> takes every digit that follows (with
  fewer, the next code unit would be a digit and not \<^verbatim>\<open>_\<close>).
\<close>

definition matchToken :: "string \<Rightarrow> (string \<times> string) option" where
  "matchToken s =
     (if startsWith s ''__SRLC_TPL_''
      then (let r = drop 11 s; ds = takeWhile isDigit r; r' = dropWhile isDigit r
            in if ds \<noteq> [] \<and> startsWith r' ''__'' then Some (ds, drop 2 r') else None)
      else None)"

lemma matchToken_length: "matchToken s = Some (ds, rest) \<Longrightarrow> length rest < length s"
proof -
  assume "matchToken s = Some (ds, rest)"
  then have "rest = drop 2 (dropWhile isDigit (drop 11 s))" and "startsWith s ''__SRLC_TPL_''"
    by (auto simp: matchToken_def Let_def split: if_splits)
  moreover have "length (dropWhile isDigit (drop 11 s)) \<le> length (drop 11 s)"
    by (rule length_dropWhile_le)
  moreover have "s \<noteq> []" using calculation(2) by (auto simp: startsWith_def)
  ultimately show ?thesis by (cases s) auto
qed

text \<open>
  \<^verbatim>\<open>placeholders[parseInt(idx)]\<close> as a replacement text: an index past the end reads
  \<^verbatim>\<open>undefined\<close>, which \<^verbatim>\<open>replace\<close> writes as the text \<^verbatim>\<open>undefined\<close>.
\<close>

definition placeholderAt :: "string list \<Rightarrow> nat \<Rightarrow> string" where
  "placeholderAt placeholders n =
     (if n < length placeholders then placeholders ! n else ''undefined'')"

function restoreFrom :: "string list \<Rightarrow> string \<Rightarrow> string" where
  "restoreFrom placeholders [] = []"
| "restoreFrom placeholders (c # cs) =
     (case matchToken (c # cs) of
        Some (idx, rest) \<Rightarrow> placeholderAt placeholders (parseDigits idx) @ restoreFrom placeholders rest
      | None \<Rightarrow> c # restoreFrom placeholders cs)"
  by pat_completeness auto
termination
  by (relation "measure (\<lambda>(ps, s). length s)") (auto dest: matchToken_length)

definition restoreTemplateSyntax :: "string \<Rightarrow> string list \<Rightarrow> string" where
  "restoreTemplateSyntax html placeholders =
     (if placeholders = [] then html else restoreFrom placeholders html)"

text \<open>\<^verbatim>\<open>s.includes(p)\<close>: \<open>p\<close> occurs in \<open>s\<close>.\<close>

fun includesStr :: "string \<Rightarrow> string \<Rightarrow> bool" where
  "includesStr [] p = (p = [])"
| "includesStr (c # cs) p = (startsWith (c # cs) p \<or> includesStr cs p)"

section \<open>The document tree\<close>

text \<open>
  \<^verbatim>\<open>container.innerHTML = protectedHtml\<close> hands the text to the platform's HTML parser. The
  model starts from the tree the parser built: a node is a text node or an element with
  its local name in lower case (\<^verbatim>\<open>tagName\<close> is that name in upper case for an HTML element),
  its attributes in order and its child nodes. Comment nodes carry no text content and
  match no selector; they are left out.
\<close>

datatype node = Text string | Element string "(string \<times> string) list" "node list"

fun tagName :: "node \<Rightarrow> string" where
  "tagName (Text s) = []"
| "tagName (Element t as cs) = t"

fun attributes :: "node \<Rightarrow> (string \<times> string) list" where
  "attributes (Text s) = []"
| "attributes (Element t as cs) = as"

fun childNodes :: "node \<Rightarrow> node list" where
  "childNodes (Text s) = []"
| "childNodes (Element t as cs) = cs"

fun isElement :: "node \<Rightarrow> bool" where
  "isElement (Text s) = False"
| "isElement (Element t as cs) = True"

text \<open>\<^verbatim>\<open>el.getAttribute(name)\<close>: \<open>None\<close> is \<^verbatim>\<open>null\<close>.\<close>

definition getAttribute :: "node \<Rightarrow> string \<Rightarrow> string option" where
  "getAttribute n name = map_of (attributes n) name"

text \<open>\<^verbatim>\<open>value || ''\<close> on an attribute value that may be \<^verbatim>\<open>null\<close>.\<close>

definition orEmpty :: "string option \<Rightarrow> string" where
  "orEmpty v = (case v of None \<Rightarrow> [] | Some s \<Rightarrow> s)"

text \<open>\<^verbatim>\<open>el.className\<close> of an HTML element: the value of its \<^verbatim>\<open>class\<close> attribute, or the empty string.\<close>

definition className :: "node \<Rightarrow> string" where
  "className n = orEmpty (getAttribute n ''class'')"

fun textContent :: "node \<Rightarrow> string" where
  "textContent (Text s) = s"
| "textContent (Element t as cs) = concat (map textContent cs)"

text \<open>
  The descendants of a node in document order, each with its chain of ancestors, nearest
  first, up to and including the node the walk started from (given \<open>anc\<close>, the chain of
  that node itself).
\<close>

fun descendantsIn :: "node list \<Rightarrow> node \<Rightarrow> (node list \<times> node) list" where
  "descendantsIn anc (Text s) = []"
| "descendantsIn anc (Element t as cs) =
     concat (map (\<lambda>c. (Element t as cs # anc, c) # descendantsIn (Element t as cs # anc) c) cs)"

definition descendants :: "node \<Rightarrow> node list" where
  "descendants n = map snd (descendantsIn [] n)"

text \<open>
  \<^verbatim>\<open>root.querySelectorAll(selector)\<close>: the descendants of \<open>root\<close> that match, in document
  order. A selector is a predicate on the node; \<open>querySelectorAllIn\<close> also gives the
  ancestors of each match.
\<close>

definition querySelectorAllIn :: "node \<Rightarrow> (node \<Rightarrow> bool) \<Rightarrow> (node list \<times> node) list" where
  "querySelectorAllIn root sel = filter (\<lambda>x. sel (snd x)) (descendantsIn [] root)"

definition querySelectorAll :: "node \<Rightarrow> (node \<Rightarrow> bool) \<Rightarrow> node list" where
  "querySelectorAll root sel = filter sel (descendants root)"

text \<open>The selectors of \<^verbatim>\<open>src/app.js\<close>.\<close>

definition sel_tag :: "string \<Rightarrow> node \<Rightarrow> bool" where
  "sel_tag t n = (isElement n \<and> tagName n = t)"

definition sel_a_href :: "node \<Rightarrow> bool" where
  "sel_a_href n = (sel_tag ''a'' n \<and> getAttribute n ''href'' \<noteq> None)"

definition sel_has_attr :: "string \<Rightarrow> node \<Rightarrow> bool" where
  "sel_has_attr name n = (isElement n \<and> getAttribute n name \<noteq> None)"

text \<open>
  \<^verbatim>\<open>a[target="_self"]\<close>: in an HTML document the value of a \<^verbatim>\<open>target\<close> attribute is
  compared without regard to ASCII case.
\<close>

definition sel_a_target_self :: "node \<Rightarrow> bool" where
  "sel_a_target_self n =
     (sel_tag ''a'' n \<and>
      (case getAttribute n ''target'' of None \<Rightarrow> False | Some v \<Rightarrow> toLowerCase v = ''_self''))"

text \<open>The container \<^verbatim>\<open>document.createElement('div')\<close> around the parsed nodes.\<close>

definition containerOf :: "node list \<Rightarrow> node" where
  "containerOf body = Element ''div'' [] body"

section \<open>Link classification\<close>

definition isImageLink_el :: "node \<Rightarrow> bool" where
  "isImageLink_el a =
     (let imgs = querySelectorAll a (sel_tag ''img'')
      in if length imgs = 0 then False
         else (let textContent' =
                     foldl (\<lambda>txt n.
                        case n of
                          Text s \<Rightarrow> txt @ trim s
                        | Element t as cs \<Rightarrow>
                            if t \<noteq> ''img'' \<and> querySelectorAll n (sel_tag ''img'') = []
                            then txt @ trim (textContent n) else txt)
                      [] (childNodes a)
               in length textContent' = 0))"

text \<open>
  Regular expressions over words. \<^verbatim>\<open>\b\<close> holds between two positions when exactly one of
  the code units before and after is a word character (\<^verbatim>\<open>[A-Za-z0-9_]\<close>); \<open>prev\<close> tells
  whether the code unit before is one, and is false at the start.
\<close>

definition isWordChar :: "char \<Rightarrow> bool" where
  "isWordChar c =
     (c \<in> set ''abcdefghijklmnopqrstuvwxyzABCDEFGHIJKLMNOPQRSTUVWXYZ0123456789_'')"

definition wordBoundary :: "bool \<Rightarrow> string \<Rightarrow> bool" where
  "wordBoundary prev s = (prev \<noteq> (s \<noteq> [] \<and> isWordChar (hd s)))"

text \<open>\<^verbatim>\<open>(w1|w2|...)\b\<close> at the start of \<open>s\<close>, for non-empty alternatives.\<close>

definition matchWords :: "string list \<Rightarrow> string \<Rightarrow> bool" where
  "matchWords ws s =
     list_ex (\<lambda>w. startsWith s w \<and> wordBoundary (isWordChar (last w)) (drop (length w) s)) ws"

text \<open>\<^verbatim>\<open>/\b(w1|w2|...)\b/.test(s)\<close>: a match at some position of \<open>s\<close>.\<close>

fun testWords :: "string list \<Rightarrow> bool \<Rightarrow> string \<Rightarrow> bool" where
  "testWords ws prev [] = False"
| "testWords ws prev (c # cs) =
     ((wordBoundary prev (c # cs) \<and> matchWords ws (c # cs)) \<or> testWords ws (isWordChar c) cs)"

text \<open>
  \<open>anc\<close> is the chain of ancestors of \<open>a\<close>; its head is \<^verbatim>\<open>a.parentElement\<close>. The text is
  lower-cased before the second test, so the flag \<^verbatim>\<open>i\<close> of that expression changes nothing.
\<close>

definition isCtaLink_el :: "node list \<Rightarrow> node \<Rightarrow> bool" where
  "isCtaLink_el anc a =
     (let cls = toLowerCase (className a);
          txt' = trim (toLowerCase (textContent a))
      in if testWords [''btn'', ''button'', ''cta'', ''shop-now'', ''buy-now'', ''add-to-cart''] False cls
         then True
         else if matchWords [''shop'', ''buy'', ''order'', ''add to cart'', ''get it'', ''check price'',
                   ''see price'', ''view deal'', ''view product'', ''learn more''] txt'
         then True
         else (let parentCls = toLowerCase (case anc of [] \<Rightarrow> [] | p # ps \<Rightarrow> className p)
               in if testWords [''btn'', ''button'', ''cta'', ''shop'', ''call-to-action''] False parentCls
                  then True else False))"

definition isInHeading_el :: "node list \<Rightarrow> node \<Rightarrow> bool" where
  "isInHeading_el anc el =
     list_ex (\<lambda>cur. tagName cur \<in> set [''h1'', ''h2'', ''h3'', ''h4'', ''h5'', ''h6'']) (el # anc)"

definition isExternalLink :: "url_parser \<Rightarrow> string \<Rightarrow> string \<Rightarrow> bool" where
  "isExternalLink newURL h domain =
     (if domain = [] then False
      else if h = [] \<or> startsWith h ''/'' \<or> startsWith h ''#'' then False
      else (case newURL h of
              Inr u \<Rightarrow> \<not> includesStr (hostname u) (toLowerCase domain)
            | Inl e \<Rightarrow> False))"

definition getParentTag :: "node list \<Rightarrow> string" where
  "getParentTag anc =
     (case find (\<lambda>cur. tagName cur \<in> set [''p'', ''li'', ''td'', ''th'', ''h1'', ''h2'', ''h3'', ''h4'',
                  ''h5'', ''h6'', ''blockquote'', ''figcaption'', ''dd'', ''dt'']) anc of
        Some cur \<Rightarrow> tagName cur
      | None \<Rightarrow> ''div'')"

text \<open>\<^verbatim>\<open>text.indexOf(t)\<close>: \<open>None\<close> is -1.\<close>

fun indexOf :: "string \<Rightarrow> string \<Rightarrow> nat option" where
  "indexOf [] t = (if t = [] then Some 0 else None)"
| "indexOf (c # cs) t =
     (if startsWith (c # cs) t then Some 0
      else (case indexOf cs t of None \<Rightarrow> None | Some i \<Rightarrow> Some (Suc i)))"

text \<open>\<^verbatim>\<open>text.slice(start, end)\<close> for \<open>0 \<le> start\<close> and \<open>0 \<le> end\<close>.\<close>

definition slice :: "nat \<Rightarrow> nat \<Rightarrow> string \<Rightarrow> string" where
  "slice start end' s = take (end' - start) (drop start s)"

definition getContext :: "node list \<Rightarrow> node \<Rightarrow> string" where
  "getContext anc linkEl =
     (case anc of
        [] \<Rightarrow> []
      | parent # ps \<Rightarrow>
          (let text' = textContent parent;
               linkText = textContent linkEl
           in case indexOf text' linkText of
                None \<Rightarrow> slice 0 80 text'
              | Some idx \<Rightarrow>
                  (let start = idx - 30;
                       end' = min (length text') (idx + length linkText + 30);
                       ctx = trim (slice start end' text');
                       ctx1 = (if start > 0 then ''...'' @ ctx else ctx);
                       ctx2 = (if end' < length text' then ctx1 @ ''...'' else ctx1)
                   in ctx2)))"

section \<open>Analysis\<close>

text \<open>
  A warning \<^verbatim>\<open>{ type, message }\<close>. The constructor is the type; its arguments are the values
  the message interpolates, in the order of the template literal. The wording around them
  is not modelled.
\<close>

datatype warning =
    Broken string string
  | ImageOnly string nat
  | Heading string nat
  | Density nat string

fun isDensity :: "warning \<Rightarrow> bool" where
  "isDensity (Density n t) = True"
| "isDensity w = False"

record stats =
  totalLinks :: nat
  uniqueUrls :: nat
  imageLinks :: nat
  ctaLinks :: nat
  textLinks :: nat
  externalLinks :: nat

text \<open>
  The object \<^verbatim>\<open>{ links, groups, warnings, stats }\<close> that \<^verbatim>\<open>analyzeHtml\<close> returns: the Link
  objects with \<^verbatim>\<open>links\<close> and \<^verbatim>\<open>groups\<close> are the \<open>inventory\<close>, as \<^verbatim>\<open>handleAnalyze\<close> stores them
  in the session.
\<close>

record analysis =
  inventory :: state
  warnings :: "warning list"
  stats :: stats

text \<open>
  \<^verbatim>\<open>groups\<close> starts as \<^verbatim>\<open>{}\<close>, which inherits from \<^verbatim>\<open>Object.prototype\<close>: reading
  \<^verbatim>\<open>groups[key]\<close> for a key that is no own property gives the inherited value when the key
  is one of the names below, and \<^verbatim>\<open>undefined\<close> otherwise.
\<close>

definition inheritedKey :: "string \<Rightarrow> bool" where
  "inheritedKey k =
     (k \<in> set [''constructor'', ''__proto__'', ''hasOwnProperty'', ''isPrototypeOf'',
        ''propertyIsEnumerable'', ''toString'', ''toLocaleString'', ''valueOf'',
        ''__defineGetter__'', ''__defineSetter__'', ''__lookupGetter__'', ''__lookupSetter__''])"

text \<open>Assignment to an own property: a new key goes to the end, an old key keeps its place.\<close>

fun setProperty :: "(string \<times> 'a) list \<Rightarrow> string \<Rightarrow> 'a \<Rightarrow> (string \<times> 'a) list" where
  "setProperty [] k v = [(k, v)]"
| "setProperty (kv # kvs) k v =
     (if fst kv = k then (k, v) # kvs else kv # setProperty kvs k v)"

text \<open>
  \<^verbatim>\<open>g.links.push(link)\<close> and the counters, on the group object \<open>g\<close>; \<open>r\<close> is the reference
  to the new Link.
\<close>

definition addToGroup :: "group \<Rightarrow> ref \<Rightarrow> bool \<Rightarrow> bool \<Rightarrow> bool \<Rightarrow> group" where
  "addToGroup g r img cta heading =
     (let g1 = g\<lparr>g_links := g_links g @ [r]\<rparr>;
          g2 = (if img then g1\<lparr>imageCount := imageCount g1 + 1\<rparr>
                else if cta then g1\<lparr>ctaCount := ctaCount g1 + 1\<rparr>
                else g1\<lparr>textCount := textCount g1 + 1\<rparr>)
      in if heading then g2\<lparr>inHeadingCount := inHeadingCount g2 + 1\<rparr> else g2)"

text \<open>
  The body of \<^verbatim>\<open>allAnchors.forEach((a, rawIndex) => ...)\<close>, on the Link inventory and the
  warnings built so far. The new Link object gets the next unused reference, which is the
  number of Links so far. \<^verbatim>\<open>!normalized\<close> holds for \<^verbatim>\<open>null\<close> and for the empty string. When
  \<^verbatim>\<open>groups[normalized]\<close> reads an inherited value, no group is created, \<^verbatim>\<open>g.links\<close> is
  \<^verbatim>\<open>undefined\<close> and \<^verbatim>\<open>g.links.push\<close> throws a \<^verbatim>\<open>TypeError\<close>.
\<close>

definition analyzeAnchor ::
  "url_parser \<Rightarrow> string \<Rightarrow> state \<times> warning list \<Rightarrow> nat \<Rightarrow> node list \<times> node \<Rightarrow>
   js_error + state \<times> warning list" where
  "analyzeAnchor newURL domain acc rawIdx x =
     (let st = fst acc; ws = snd acc; anc = fst x; a = snd x;
          h = orEmpty (getAttribute a ''href'')
      in case normalizeUrl newURL h of
           Inl e \<Rightarrow> Inl e
         | Inr normalized' \<Rightarrow>
             if normalized' = None \<or> normalized' = Some []
             then Inr (st, if h \<noteq> [] \<and> h \<noteq> ''#''
                           then ws @ [Broken h (slice 0 40 (trim (textContent a)))] else ws)
             else
               (let normalized = the normalized';
                    img = isImageLink_el a;
                    cta = (\<not> img \<and> isCtaLink_el anc a);
                    heading = isInHeading_el anc a;
                    external = isExternalLink newURL h domain;
                    r = length (links st);
                    link = \<lparr>id' = length (links st), rawIndex = rawIdx, href = h,
                            normalizedHref = normalized,
                            anchorText = (if img then ''[image]''
                                          else (let t = trim (textContent a)
                                                in if t \<noteq> [] then t else ''[empty]'')),
                            isImageLink = img, isCtaLink = cta, isInHeading = heading,
                            isExternal = external, parentTag = getParentTag anc,
                            context' = getContext anc a, keep = True,
                            rel = orEmpty (getAttribute a ''rel'')\<rparr>;
                    st1 = st\<lparr>heap := (heap st)(r := link), links := links st @ [r]\<rparr>
                in case map_of (groups st1) normalized of
                     Some g \<Rightarrow>
                       Inr (st1\<lparr>groups := setProperty (groups st1) normalized
                                    (addToGroup g r img cta heading)\<rparr>, ws)
                   | None \<Rightarrow>
                       if inheritedKey normalized then Inl TypeError
                       else
                         (let g = \<lparr>g_normalizedHref = normalized, originalHref = h, g_links = [],
                                   imageCount = 0, textCount = 0, ctaCount = 0, inHeadingCount = 0\<rparr>
                          in Inr (st1\<lparr>groups := setProperty (groups st1) normalized
                                       (addToGroup g r img cta heading)\<rparr>, ws))))"

text \<open>\<^verbatim>\<open>forEach\<close> with the index of the element; an exception ends the loop.\<close>

fun forEachIndexed ::
  "('s \<Rightarrow> nat \<Rightarrow> 'a \<Rightarrow> js_error + 's) \<Rightarrow> 's \<Rightarrow> nat \<Rightarrow> 'a list \<Rightarrow> js_error + 's" where
  "forEachIndexed f acc i [] = Inr acc"
| "forEachIndexed f acc i (x # xs) =
     (case f acc i x of Inl e \<Rightarrow> Inl e | Inr acc' \<Rightarrow> forEachIndexed f acc' (Suc i) xs)"

text \<open>The two edge-case warnings of one entry of \<^verbatim>\<open>Object.entries(groups)\<close>.\<close>

definition groupWarnings :: "string \<times> group \<Rightarrow> warning list" where
  "groupWarnings e =
     (let url' = fst e; g = snd e
      in (if textCount g = 0 \<and> ctaCount g = 0 \<and> imageCount g > 0
          then [ImageOnly url' (imageCount g)] else []) @
         (if inHeadingCount g > 0 then [Heading url' (inHeadingCount g)] else []))"

text \<open>The paragraph density loop.\<close>

definition densityWarnings :: "node \<Rightarrow> warning list" where
  "densityWarnings container =
     concat (map (\<lambda>p. (let count = length (querySelectorAll p sel_a_href)
                        in if count \<ge> 5
                           then [Density count (trim (slice 0 60 (textContent p)))] else []))
               (querySelectorAll container (sel_tag ''p'')))"

definition computeStats :: "state \<Rightarrow> stats" where
  "computeStats st =
     (let total = length (links st);
          unique = length (objectEntries (groups st));
          images = length (filter (\<lambda>r. isImageLink (heap st r)) (links st));
          ctas = length (filter (\<lambda>r. isCtaLink (heap st r)) (links st));
          texts = total - images - ctas;
          externals = length (filter (\<lambda>r. isExternal (heap st r)) (links st))
      in \<lparr>totalLinks = total, uniqueUrls = unique, imageLinks = images, ctaLinks = ctas,
          textLinks = texts, externalLinks = externals\<rparr>)"

text \<open>The Link object that an unused reference denotes.\<close>

definition blankLink :: link where
  "blankLink = \<lparr>id' = 0, rawIndex = 0, href = [], normalizedHref = [], anchorText = [],
     isImageLink = False, isCtaLink = False, isInHeading = False, isExternal = False,
     parentTag = [], context' = [], keep = True, rel = []\<rparr>"

definition emptyState :: state where
  "emptyState = \<lparr>heap = (\<lambda>r. blankLink), links = [], groups = []\<rparr>"

text \<open>
  \<^verbatim>\<open>analyzeHtml\<close> from the parsed container on: \<open>body\<close> are the nodes the parser built from
  the guarded text, \<open>domain\<close> the trimmed value of the site-domain input.
\<close>

definition analyzeDom :: "url_parser \<Rightarrow> string \<Rightarrow> node list \<Rightarrow> js_error + analysis" where
  "analyzeDom newURL domain body =
     (let container = containerOf body;
          allAnchors = querySelectorAllIn container sel_a_href
      in case forEachIndexed (analyzeAnchor newURL domain) (emptyState, []) 0 allAnchors of
           Inl e \<Rightarrow> Inl e
         | Inr acc \<Rightarrow>
             Inr \<lparr>inventory = fst acc,
                  warnings = snd acc @
                    concat (map groupWarnings (objectEntries (groups (fst acc)))) @
                    densityWarnings container,
                  stats = computeStats (fst acc)\<rparr>)"

text \<open>
  \<^verbatim>\<open>analyzeHtml\<close>: \<open>parseHTML\<close> is the platform's HTML fragment parser behind
  \<^verbatim>\<open>container.innerHTML = ...\<close>, \<open>domainInput\<close> the value of the site-domain input.
\<close>

definition analyzeHtml ::
  "url_parser \<Rightarrow> (string \<Rightarrow> node list) \<Rightarrow> string \<Rightarrow> string \<Rightarrow> js_error + analysis" where
  "analyzeHtml newURL parseHTML domainInput html =
     analyzeDom newURL (trim domainInput) (parseHTML (fst (protectTemplateSyntax html)))"

section \<open>Regenerating the HTML\<close>

text \<open>
  \<^verbatim>\<open>processContainer\<close> walks the anchors with an href in document order and pairs every
  anchor whose href normalizes to a key with the next Link of \<^verbatim>\<open>state.links\<close>, as long as
  there is one. \<open>pairAnchors\<close> is that loop for the callback of \<^verbatim>\<open>generateCleanHtml\<close>: for
  each anchor, whether the callback sets \<^verbatim>\<open>data-srlc-remove\<close> on it.
\<close>

fun pairAnchors :: "url_parser \<Rightarrow> state \<Rightarrow> nat \<Rightarrow> node list \<Rightarrow> js_error + bool list" where
  "pairAnchors newURL s linkIdx [] = Inr []"
| "pairAnchors newURL s linkIdx (a # as) =
     (case normalizeUrl newURL (orEmpty (getAttribute a ''href'')) of
        Inl e \<Rightarrow> Inl e
      | Inr normalized \<Rightarrow>
          if normalized = None \<or> normalized = Some []
          then (case pairAnchors newURL s linkIdx as of
                  Inl e \<Rightarrow> Inl e | Inr ms \<Rightarrow> Inr (False # ms))
          else if linkIdx < length (links s)
          then (case pairAnchors newURL s (linkIdx + 1) as of
                  Inl e \<Rightarrow> Inl e
                | Inr ms \<Rightarrow> Inr ((\<not> keep (heap s (links s ! linkIdx))) # ms))
          else (case pairAnchors newURL s linkIdx as of
                  Inl e \<Rightarrow> Inl e | Inr ms \<Rightarrow> Inr (False # ms)))"

text \<open>\<^verbatim>\<open>el.setAttribute(name, value)\<close> and \<^verbatim>\<open>el.removeAttribute(name)\<close> on the attribute list.\<close>

definition setAttribute :: "(string \<times> string) list \<Rightarrow> string \<Rightarrow> string \<Rightarrow> (string \<times> string) list" where
  "setAttribute as name v = setProperty as name v"

definition removeAttribute :: "(string \<times> string) list \<Rightarrow> string \<Rightarrow> (string \<times> string) list" where
  "removeAttribute as name = filter (\<lambda>kv. fst kv \<noteq> name) as"

text \<open>
  The effect of the callbacks on the tree: the anchors with an href are met in document
  order, and the \<open>j\<close>-th of them gets the attribute when the \<open>j\<close>-th mark is set. The
  result carries the marks that are left.
\<close>

fun markNode :: "bool list \<Rightarrow> node \<Rightarrow> node \<times> bool list"
  and markNodes :: "bool list \<Rightarrow> node list \<Rightarrow> node list \<times> bool list" where
  "markNode ms (Text s) = (Text s, ms)"
| "markNode ms (Element t as cs) =
     (if sel_a_href (Element t as cs)
      then (case ms of
              [] \<Rightarrow> (let r = markNodes [] cs in (Element t as (fst r), snd r))
            | m # ms' \<Rightarrow>
                (let r = markNodes ms' cs
                 in (Element t (if m then setAttribute as ''data-srlc-remove'' ''true'' else as) (fst r),
                     snd r)))
      else (let r = markNodes ms cs in (Element t as (fst r), snd r)))"
| "markNodes ms [] = ([], ms)"
| "markNodes ms (n # ns) =
     (let r = markNode ms n; r' = markNodes (snd r) ns in (fst r # fst r', snd r'))"

text \<open>
  Unwrapping: every element with the attribute \<^verbatim>\<open>data-srlc-remove\<close> is replaced, in its
  parent, by its child nodes. The loop of the source takes the elements in document order
  and moves the children of each in front of it before removing it, so an element inside
  an unwrapped one is unwrapped in its new parent; the result is the tree in which every
  such element has given way to its (unwrapped) children.
\<close>

fun unwrap :: "node \<Rightarrow> node list" where
  "unwrap (Text s) = [Text s]"
| "unwrap (Element t as cs) =
     (if sel_has_attr ''data-srlc-remove'' (Element t as cs)
      then concat (map unwrap cs)
      else [Element t as (concat (map unwrap cs))])"

text \<open>\<^verbatim>\<open>a.removeAttribute('target')\<close> on every match of \<^verbatim>\<open>a[target="_self"]\<close>.\<close>

fun stripTargetSelf :: "node \<Rightarrow> node" where
  "stripTargetSelf (Text s) = Text s"
| "stripTargetSelf (Element t as cs) =
     Element t (if sel_a_target_self (Element t as cs) then removeAttribute as ''target'' else as)
       (map stripTargetSelf cs)"

text \<open>
  \<^verbatim>\<open>generateCleanHtml\<close> between the parser and the serializer: the nodes of the container
  after the three passes, and the value it stores in \<^verbatim>\<open>state.targetSelfCount\<close>.
\<close>

definition cleanDom :: "url_parser \<Rightarrow> state \<Rightarrow> node list \<Rightarrow> js_error + node list \<times> nat" where
  "cleanDom newURL s body =
     (case pairAnchors newURL s 0 (querySelectorAll (containerOf body) sel_a_href) of
        Inl e \<Rightarrow> Inl e
      | Inr ms \<Rightarrow>
          (let marked = fst (markNodes ms body);
               unwrapped = concat (map unwrap marked);
               targetSelfCount = length (querySelectorAll (containerOf unwrapped) sel_a_target_self);
               stripped = map stripTargetSelf unwrapped
           in Inr (stripped, targetSelfCount)))"

text \<open>
  \<^verbatim>\<open>generateCleanHtml\<close>: \<open>parseHTML\<close> and \<open>serializeHTML\<close> are the platform's setter and
  getter of \<^verbatim>\<open>innerHTML\<close>. The result is the returned text and \<^verbatim>\<open>state.targetSelfCount\<close>.
\<close>

definition generateCleanHtml ::
  "url_parser \<Rightarrow> (string \<Rightarrow> node list) \<Rightarrow> (node list \<Rightarrow> string) \<Rightarrow> state \<Rightarrow> string \<Rightarrow>
   js_error + string \<times> nat" where
  "generateCleanHtml newURL parseHTML serializeHTML s originalHtml =
     (let guarded = protectTemplateSyntax originalHtml
      in case cleanDom newURL s (parseHTML (fst guarded)) of
           Inl e \<Rightarrow> Inl e
         | Inr r \<Rightarrow> Inr (restoreTemplateSyntax (serializeHTML (fst r)) (snd guarded), snd r))"


section \<open>The writes of a decision-engine run\<close>

text \<open>
  For the proofs: a run of \<^verbatim>\<open>applyAutoStrip\<close> is a sequence of assignments \<^verbatim>\<open>link.keep = b\<close>.
  \<open>groupWrites\<close> lists the assignments of one group in the order the loop makes them,
  \<open>applyWrites\<close> performs a list of assignments, and \<open>sameFlags\<close> relates two heaps whose
  objects differ at most in \<open>keep\<close>.
\<close>

fun applyWrites :: "(ref \<times> bool) list \<Rightarrow> (ref \<Rightarrow> link) \<Rightarrow> (ref \<Rightarrow> link)" where
  "applyWrites [] h = h"
| "applyWrites (w # ws) h = applyWrites ws (h(fst w := (h (fst w))\<lparr>keep := snd w\<rparr>))"

fun keepFirstWrites :: "bool \<Rightarrow> (ref \<Rightarrow> link) \<Rightarrow> ref list \<Rightarrow> (ref \<times> bool) list" where
  "keepFirstWrites f h [] = []"
| "keepFirstWrites f h (r # rs) =
     (if isImageLink (h r) \<or> isCtaLink (h r) then (r, True) # keepFirstWrites f h rs
      else if \<not> f then (r, True) # keepFirstWrites True h rs
      else (r, False) # keepFirstWrites f h rs)"

definition groupWrites :: "(ref \<Rightarrow> link) \<Rightarrow> group \<Rightarrow> (ref \<times> bool) list" where
  "groupWrites h g =
     (let textLinks = filter (\<lambda>r. \<not> isImageLink (h r) \<and> \<not> isCtaLink (h r)) (g_links g)
      in if length textLinks = 2 \<and> hasDifferentAnchors (map h textLinks)
         then map (\<lambda>r. (r, True)) (g_links g)
         else keepFirstWrites False h (g_links g))"

definition sameFlags :: "(ref \<Rightarrow> link) \<Rightarrow> (ref \<Rightarrow> link) \<Rightarrow> bool" where
  "sameFlags h h' = (\<forall>r. (h' r)\<lparr>keep := True\<rparr> = (h r)\<lparr>keep := True\<rparr>)"

section \<open>An example session\<close>

text \<open>
  A session as \<^verbatim>\<open>handleAnalyze\<close> leaves it before \<^verbatim>\<open>applyAutoStrip\<close>: two text links to
  \<^verbatim>\<open>/guide\<close> with different anchor texts; an image link, two text links with the same
  anchor text up to case and white space, and a call-to-action link to \<^verbatim>\<open>/product\<close>.
  \<open>heapOf ls\<close> is the heap in which reference \<open>r\<close> denotes \<open>ls ! r\<close>.
\<close>

definition heapOf :: "link list \<Rightarrow> ref \<Rightarrow> link" where
  "heapOf ls r = (if r < length ls then ls ! r else blankLink)"

definition demoLink :: "nat \<Rightarrow> string \<Rightarrow> string \<Rightarrow> bool \<Rightarrow> bool \<Rightarrow> link" where
  "demoLink i h t img cta = \<lparr>id' = i, rawIndex = i, href = h, normalizedHref = h, anchorText = t,
     isImageLink = img, isCtaLink = cta, isInHeading = False, isExternal = False,
     parentTag = ''p'', context' = t, keep = True, rel = []\<rparr>"

definition demoLinks :: "link list" where
  "demoLinks =
    [demoLink 0 ''/guide'' ''Read the guide'' False False,
     demoLink 1 ''/guide'' ''Full guide here'' False False,
     demoLink 2 ''/product'' ''[image]'' True False,
     demoLink 3 ''/product'' ''The Widget'' False False,
     demoLink 4 ''/product'' '' the widget '' False False,
     demoLink 5 ''/product'' ''Shop now'' False True]"

definition demoGuide :: group where
  "demoGuide = \<lparr>g_normalizedHref = ''/guide'', originalHref = ''/guide'', g_links = [0, 1],
     imageCount = 0, textCount = 2, ctaCount = 0, inHeadingCount = 0\<rparr>"

definition demoProduct :: group where
  "demoProduct = \<lparr>g_normalizedHref = ''/product'', originalHref = ''/product'', g_links = [2, 3, 4, 5],
     imageCount = 1, textCount = 2, ctaCount = 1, inHeadingCount = 0\<rparr>"

definition demoState :: state where
  "demoState = \<lparr>heap = heapOf demoLinks, links = [0, 1, 2, 3, 4, 5],
     groups = [(''/guide'', demoGuide), (''/product'', demoProduct)]\<rparr>"

section \<open>Anchors with a valid href\<close>

text \<open>
  For the statements about \<^verbatim>\<open>analyzeHtml\<close>: an href is valid when \<^verbatim>\<open>normalizeUrl\<close> gives it
  a key (\<^verbatim>\<open>!normalized\<close> is false), and \<open>brokenWarning\<close> is the warning, if any, that the
  loop over the anchors pushes for an anchor whose href is not valid.
\<close>

definition validHref :: "url_parser \<Rightarrow> string \<Rightarrow> bool" where
  "validHref newURL h =
     (case normalizeUrl newURL h of Inr (Some k) \<Rightarrow> k \<noteq> [] | Inr None \<Rightarrow> False | Inl e \<Rightarrow> False)"

definition validAnchor :: "url_parser \<Rightarrow> node \<Rightarrow> bool" where
  "validAnchor newURL a = validHref newURL (orEmpty (getAttribute a ''href''))"

definition brokenWarning :: "url_parser \<Rightarrow> node \<Rightarrow> warning list" where
  "brokenWarning newURL a =
     (let h = orEmpty (getAttribute a ''href'')
      in if \<not> validHref newURL h \<and> h \<noteq> [] \<and> h \<noteq> ''#''
         then [Broken h (slice 0 40 (trim (textContent a)))] else [])"

text \<open>
  The grouping invariant of an analysed session: every Link of \<^verbatim>\<open>state.links\<close> is a member
  of exactly one group, once, and the references in use are \<open>0, 1, ...\<close> in the order of
  \<^verbatim>\<open>state.links\<close>.
\<close>

definition groupedOnce :: "state \<Rightarrow> bool" where
  "groupedOnce st =
     (distinct (concat (map (\<lambda>kg. g_links (snd kg)) (groups st))) \<and>
      set (concat (map (\<lambda>kg. g_links (snd kg)) (groups st))) = set (links st) \<and>
      links st = [0..<length (links st)])"

section \<open>Example documents\<close>



text \<open>An anchor whose href normalizes to the key \<^verbatim>\<open>constructor\<close>.\<close>

definition inheritedKeyDoc :: "node list" where
  "inheritedKeyDoc = [Element ''a'' [(''href'', ''/'')] [Text ''home''],
     Element ''a'' [(''href'', ''Constructor'')] [Text ''builder'']]"

text \<open>A paragraph with five anchors, none of which has a valid href.\<close>

definition fragmentLinksDoc :: "node list" where
  "fragmentLinksDoc =
     [Element ''p'' []
        [Element ''a'' [(''href'', ''#'')] [Text ''one''],
         Element ''a'' [(''href'', ''#'')] [Text ''two''],
         Element ''a'' [(''href'', ''#'')] [Text ''three''],
         Element ''a'' [(''href'', ''#'')] [Text ''four''],
         Element ''a'' [(''href'', ''#'')] [Text ''five'']]]"

text \<open>
  A paragraph with five anchors, two of them without a valid href, and a paragraph with
  four valid anchors.
\<close>

definition denseDoc :: "node list" where
  "denseDoc =
     [Element ''p'' []
        [Text ''See '',
         Element ''a'' [(''href'', ''/a'')] [Text ''a''],
         Element ''a'' [(''href'', ''/b'')] [Text ''b''],
         Element ''a'' [(''href'', ''#'')] [Text ''top''],
         Element ''a'' [(''href'', ''/c'')] [Text ''c''],
         Element ''a'' [(''href'', ''mailto:x@y.z'')] [Text ''mail'']],
      Element ''p'' []
        [Element ''a'' [(''href'', ''/a'')] [Text ''a''],
         Element ''a'' [(''href'', ''/b'')] [Text ''b''],
         Element ''a'' [(''href'', ''/c'')] [Text ''c''],
         Element ''a'' [(''href'', ''/d'')] [Text ''d'']]]"

text \<open>
  Three links to \<^verbatim>\<open>/product\<close>: an image link and two text links with the same text, the
  second with \<^verbatim>\<open>target="_self"\<close>; and a link without href that has the attribute too.
\<close>

definition productDoc :: "node list" where
  "productDoc =
     [Element ''a'' [(''href'', ''/product'')] [Element ''img'' [(''src'', ''w.png'')] []],
      Element ''p'' []
        [Element ''a'' [(''href'', ''/product'')] [Text ''The Widget''],
         Text '' and again '',
         Element ''a'' [(''href'', ''/product/''), (''target'', ''_self'')]
           [Text ''the '', Element ''b'' [] [Text ''widget'']]],
      Element ''a'' [(''name'', ''top''), (''target'', ''_self'')] [Text ''top'']]"


section \<open>URL normalization: proofs\<close>

lemmas str_simps = startsWith_def endsWith_def splitFirst_def trim_def toLowerCase_def isWhiteSpace_def

lemma normalizeUrl_returns: "\<exists>r. normalizeUrl newURL h = Inr r"
  by (simp add: normalizeUrl_def Let_def split: sum.splits)

lemma startsWith_hd: "startsWith s p \<Longrightarrow> p \<noteq> [] \<Longrightarrow> s \<noteq> [] \<and> hd s = hd p"
  by (cases s; cases p) (auto simp: startsWith_def)

lemma trim_Nil: "trim [] = []"
  by (simp add: trim_def)

lemma absolute_not_excluded:
  assumes "startsWith t ''http://'' \<or> startsWith t ''https://'' \<or> startsWith t ''//''"
  shows "t \<noteq> [] \<and> t \<noteq> ''#'' \<and> \<not> startsWith t ''javascript:'' \<and>
    \<not> startsWith t ''mailto:'' \<and> \<not> startsWith t ''tel:''"
proof -
  from assms have h: "t \<noteq> [] \<and> (hd t = CHR ''h'' \<or> hd t = CHR ''/'')"
    by (auto dest!: startsWith_hd)
  then show ?thesis
    by (auto dest!: startsWith_hd)
qed

text \<open>
  Claim C9 (URL normalization totality). For every parser \<open>newURL\<close> and every input string,
  \<^verbatim>\<open>normalizeUrl\<close> returns a value, \<^verbatim>\<open>null\<close> or a string key, and throws nothing; and when the
  trimmed input looks absolute (it starts with \<^verbatim>\<open>http://\<close>, \<^verbatim>\<open>https://\<close> or \<^verbatim>\<open>//\<close>) and the parser
  throws, the result is the lower-cased input cut at the first \<^verbatim>\<open>?\<close> and the first \<^verbatim>\<open>#\<close>.
\<close>

theorem normalizeUrl_total:
  "(\<exists>r. normalizeUrl newURL hr = Inr r) \<and>
   (\<forall>e. (startsWith (trim hr) ''http://'' \<or> startsWith (trim hr) ''https://'' \<or>
          startsWith (trim hr) ''//'') \<and> newURL (trim hr) = Inl e \<longrightarrow>
        normalizeUrl newURL hr =
          Inr (Some (splitFirst CHR ''#'' (splitFirst CHR ''?'' (toLowerCase (trim hr))))))"
proof (intro conjI allI impI)
  show "\<exists>r. normalizeUrl newURL hr = Inr r"
    by (simp add: normalizeUrl_def Let_def split: sum.splits)
next
  fix e
  assume a: "(startsWith (trim hr) ''http://'' \<or> startsWith (trim hr) ''https://'' \<or>
          startsWith (trim hr) ''//'') \<and> newURL (trim hr) = Inl e"
  then have t: "normalizeUrlTry newURL (trim hr) = Inl e"
    by (simp add: normalizeUrlTry_def)
  from a have n: "trim hr \<noteq> [] \<and> trim hr \<noteq> ''#'' \<and>
    \<not> startsWith (trim hr) ''javascript:'' \<and> \<not> startsWith (trim hr) ''mailto:'' \<and>
    \<not> startsWith (trim hr) ''tel:''"
    by (intro absolute_not_excluded) blast
  then have "hr \<noteq> []" using trim_Nil by auto
  then show "normalizeUrl newURL hr =
          Inr (Some (splitFirst CHR ''#'' (splitFirst CHR ''?'' (toLowerCase (trim hr)))))"
    using n t by (simp add: normalizeUrl_def)
qed

text \<open>The stand-in parser rejects \<^verbatim>\<open>http://?Q#x\<close> (empty host); the fallback key is \<^verbatim>\<open>http://\<close>.\<close>

theorem normalizeUrl_total_witness:
  "startsWith (trim '' http://?Q#x'') ''http://'' \<and> basicURL (trim '' http://?Q#x'') = Inl TypeError \<and>
   normalizeUrl basicURL '' http://?Q#x'' = Inr (Some ''http://'')"
proof -
  have s: "startsWith (trim '' http://?Q#x'') ''http://''"
    by (simp add: str_simps)
  have f: "basicURL (trim '' http://?Q#x'') = Inl TypeError"
    by (simp add: basicURL_def str_simps)
  have "normalizeUrl basicURL '' http://?Q#x'' =
      Inr (Some (splitFirst CHR ''#'' (splitFirst CHR ''?'' (toLowerCase (trim '' http://?Q#x'')))))"
    using normalizeUrl_total [of basicURL "'' http://?Q#x''"] s f by blast
  then show ?thesis using s f by (simp add: str_simps)
qed

text \<open>
  Claim C4 (normalization equivalence), as amended. With a parser that gives
  \<^verbatim>\<open>https://x.com/a/\<close> the pathname \<^verbatim>\<open>/a/\<close>, the inputs \<^verbatim>\<open>https://x.com/a/\<close>, \<^verbatim>\<open>/a\<close> and
  \<^verbatim>\<open>/a?x=1#y\<close> all normalize to the key \<^verbatim>\<open>/a\<close>, and \<^verbatim>\<open>a/\<close> normalizes to the key \<^verbatim>\<open>a\<close>: a
  relative href is cut and lower-cased as it stands, and no leading slash is added.
\<close>

theorem normalizeUrl_paths:
  assumes "newURL ''https://x.com/a/'' = Inr u" and "pathname u = ''/a/''"
  shows "normalizeUrl newURL ''https://x.com/a/'' = Inr (Some ''/a'') \<and>
         normalizeUrl newURL ''/a'' = Inr (Some ''/a'') \<and>
         normalizeUrl newURL ''/a?x=1#y'' = Inr (Some ''/a'') \<and>
         normalizeUrl newURL ''a/'' = Inr (Some ''a'')"
proof -
  have t: "trim ''https://x.com/a/'' = ''https://x.com/a/''"
    by (simp add: str_simps)
  have "normalizeUrlTry newURL ''https://x.com/a/'' = Inr (Some ''/a'')"
    using assms by (simp add: normalizeUrlTry_def str_simps)
  then have 1: "normalizeUrl newURL ''https://x.com/a/'' = Inr (Some ''/a'')"
    by (simp add: normalizeUrl_def t) (simp add: str_simps)
  have 2: "normalizeUrl newURL ''/a'' = Inr (Some ''/a'')"
    by (simp add: normalizeUrl_def normalizeUrlTry_def str_simps)
  have 3: "normalizeUrl newURL ''/a?x=1#y'' = Inr (Some ''/a'')"
    by (simp add: normalizeUrl_def normalizeUrlTry_def str_simps)
  have 4: "normalizeUrl newURL ''a/'' = Inr (Some ''a'')"
    by (simp add: normalizeUrl_def normalizeUrlTry_def str_simps)
  from 1 2 3 4 show ?thesis by simp
qed

text \<open>The stand-in parser gives \<^verbatim>\<open>https://x.com/a/\<close> the pathname \<^verbatim>\<open>/a/\<close>.\<close>

theorem normalizeUrl_paths_witness:
  "basicURL ''https://x.com/a/'' = Inr \<lparr>pathname = ''/a/'', hostname = ''x.com''\<rparr> \<and>
   normalizeUrl basicURL ''https://x.com/a/'' = Inr (Some ''/a'') \<and>
   normalizeUrl basicURL ''/a'' = Inr (Some ''/a'') \<and>
   normalizeUrl basicURL ''/a?x=1#y'' = Inr (Some ''/a'') \<and>
   normalizeUrl basicURL ''a/'' = Inr (Some ''a'')"
proof -
  have p: "basicURL ''https://x.com/a/'' = Inr \<lparr>pathname = ''/a/'', hostname = ''x.com''\<rparr>"
    by (simp add: basicURL_def str_simps)
  have q: "pathname \<lparr>pathname = ''/a/'', hostname = ''x.com''\<rparr> = ''/a/''"
    by simp
  from normalizeUrl_paths [of basicURL "\<lparr>pathname = ''/a/'', hostname = ''x.com''\<rparr>", OF p q] p show ?thesis by simp
qed

text \<open>
  Claim C4 as stated fails: \<^verbatim>\<open>a/\<close> and \<^verbatim>\<open>/a\<close> get different keys (neither input reaches
  the parser).
\<close>

theorem normalizeUrl_same_key_counterexample:
  "normalizeUrl basicURL ''a/'' \<noteq> normalizeUrl basicURL ''/a''"
  by (simp add: normalizeUrl_def normalizeUrlTry_def str_simps)

section \<open>Template syntax protection: proofs\<close>

lemma digit_nth: "k < 10 \<Longrightarrow> isDigit (''0123456789'' ! k) \<and> digitVal (''0123456789'' ! k) = k"
proof -
  assume "k < 10"
  then have "k \<in> {0, 1, 2, 3, 4, 5, 6, 7, 8, 9}" by auto
  then show ?thesis
    by (elim insertE emptyE) (simp_all add: isDigit_def digitVal_def)
qed

lemma parseDigits_snoc: "parseDigits (ds @ [c]) = 10 * parseDigits ds + digitVal c"
  by (simp add: parseDigits_def)

lemma showNat_digits: "showNat n \<noteq> [] \<and> list_all isDigit (showNat n) \<and> parseDigits (showNat n) = n"
proof (induction n rule: showNat.induct)
  case (1 n)
  show ?case
  proof (cases "n < 10")
    case True
    then have "showNat n = [''0123456789'' ! n]" by (subst showNat.simps) simp
    with True digit_nth [of n] show ?thesis by (simp add: parseDigits_def)
  next
    case False
    then have s: "showNat n = showNat (n div 10) @ [''0123456789'' ! (n mod 10)]"
      by (subst showNat.simps) simp
    have "n mod 10 < 10" by simp
    with digit_nth [of "n mod 10"] 1 [OF False] show ?thesis
      by (simp add: s parseDigits_snoc)
  qed
qed

lemma startsWith_append: "startsWith (p @ x) p"
  by (simp add: startsWith_def)

lemma matchToken_tplToken: "matchToken (tplToken n @ y) = Some (showNat n, y)"
proof -
  let ?r = "showNat n @ ''__'' @ y"
  have e: "tplToken n @ y = ''__SRLC_TPL_'' @ ?r" by (simp add: tplToken_def)
  have s: "startsWith (tplToken n @ y) ''__SRLC_TPL_''"
    unfolding e by (rule startsWith_append)
  have d: "drop 11 (tplToken n @ y) = ?r" by (simp add: tplToken_def)
  have nd: "\<not> isDigit CHR ''_''" by (simp add: isDigit_def)
  have all: "\<forall>c\<in>set (showNat n). isDigit c"
    using showNat_digits [of n] by (simp add: list_all_iff)
  have tw: "takeWhile isDigit ?r = showNat n"
    using all nd by (simp add: takeWhile_append2)
  have dw: "dropWhile isDigit ?r = ''__'' @ y"
    using all nd by (simp add: dropWhile_append2)
  have ne: "showNat n \<noteq> []" using showNat_digits by simp
  show ?thesis
    unfolding matchToken_def Let_def d tw dw using s ne by (simp add: startsWith_def)
qed

lemma tplToken_Cons: "\<exists>c cs. tplToken n @ y = c # cs"
  by (simp add: tplToken_def)

lemma restoreFrom_token:
  "restoreFrom ps (tplToken n @ y) = placeholderAt ps n @ restoreFrom ps y"
proof -
  obtain c cs where e: "tplToken n @ y = c # cs" using tplToken_Cons by blast
  have "restoreFrom ps (c # cs) =
      (case matchToken (c # cs) of
         Some (idx, rest) \<Rightarrow> placeholderAt ps (parseDigits idx) @ restoreFrom ps rest
       | None \<Rightarrow> c # restoreFrom ps cs)"
    by simp
  then show ?thesis
    unfolding e [symmetric] matchToken_tplToken using showNat_digits [of n] by simp
qed

lemma includesStr_suffix: "includesStr b p \<Longrightarrow> includesStr (a @ b) p"
proof (induction a)
  case Nil
  then show ?case by simp
next
  case (Cons x a)
  then show ?case by simp
qed

lemma protectFrom_first:
  "fst (protectFrom ps s) = s \<or>
   (\<exists>u n y. prefix u s \<and> fst (protectFrom ps s) = u @ tplToken n @ y)"
proof (induction ps s rule: protectFrom.induct)
  case (1 ps)
  then show ?case by simp
next
  case (2 ps c cs)
  show ?case
  proof (cases "matchTemplate (c # cs)")
    case None
    from 2(1) [OF None] consider
      (same) "fst (protectFrom ps cs) = cs"
      | (tok) u n y where "prefix u cs" "fst (protectFrom ps cs) = u @ tplToken n @ y"
      by blast
    then show ?thesis
    proof cases
      case same
      with None show ?thesis by (simp add: split_beta)
    next
      case tok
      then have "prefix (c # u) (c # cs)"
        and "fst (protectFrom ps (c # cs)) = (c # u) @ tplToken n @ y"
        using None by (simp_all add: split_beta)
      then show ?thesis by blast
    qed
  next
    case (Some mr)
    obtain m rest where mr: "mr = (m, rest)" by (cases mr)
    have "fst (protectFrom ps (c # cs)) =
        [] @ tplToken (length ps) @ fst (protectFrom (ps @ [m]) rest)"
      using Some mr by (simp add: split_beta)
    moreover have "prefix [] (c # cs)" by simp
    ultimately show ?thesis by blast
  qed
qed

lemma protectFrom_grows: "prefix ps (snd (protectFrom ps s))"
proof (induction ps s rule: protectFrom.induct)
  case (1 ps)
  then show ?case by simp
next
  case (2 ps c cs)
  show ?case
  proof (cases "matchTemplate (c # cs)")
    case None
    with 2(1) [OF None] show ?thesis by (simp add: split_beta)
  next
    case (Some mr)
    obtain m rest where mr: "mr = (m, rest)" by (cases mr)
    have "prefix (ps @ [m]) (snd (protectFrom (ps @ [m]) rest))"
      using 2(2) [OF Some mr [symmetric]] by simp
    then have "prefix ps (snd (protectFrom (ps @ [m]) rest))"
      using append_prefixD by blast
    then show ?thesis using Some mr by (simp add: split_beta)
  qed
qed

lemma protectFrom_none:
  "snd (protectFrom ps s) = ps \<Longrightarrow> fst (protectFrom ps s) = s"
proof (induction ps s rule: protectFrom.induct)
  case (1 ps)
  then show ?case by simp
next
  case (2 ps c cs)
  show ?case
  proof (cases "matchTemplate (c # cs)")
    case None
    with 2(1) [OF None] 2(3) show ?thesis by (simp add: split_beta)
  next
    case (Some mr)
    obtain m rest where mr: "mr = (m, rest)" by (cases mr)
    have "prefix (ps @ [m]) (snd (protectFrom (ps @ [m]) rest))"
      by (rule protectFrom_grows)
    moreover have "snd (protectFrom (ps @ [m]) rest) = ps"
      using 2(3) Some mr by (simp add: split_beta)
    ultimately have False by (auto dest: prefix_length_le)
    then show ?thesis ..
  qed
qed


lemma token_prefix_overlap:
  assumes k: "0 < k" "k \<le> 10" and d: "drop k ''__SRLC_TPL_'' = take (11 - k) ''__SRLC_TPL_''"
  shows "k = 10"
proof -
  from k have "k = 1 \<or> k = 2 \<or> k = 3 \<or> k = 4 \<or> k = 5 \<or> k = 6 \<or> k = 7 \<or> k = 8 \<or>
      k = 9 \<or> k = 10"
    by arith
  then show ?thesis using d by (elim disjE) simp_all
qed

lemma token_prefix_length: "length ''__SRLC_TPL_'' = 11"
  by simp

lemma startsWith_token_prefix: "startsWith s ''__SRLC_TPL_'' = (take 11 s = ''__SRLC_TPL_'')"
  by (simp only: startsWith_def token_prefix_length)

lemma matchToken_no_prefix: "\<not> startsWith s ''__SRLC_TPL_'' \<Longrightarrow> matchToken s = None"
  by (simp add: matchToken_def)

lemma take_append_short: "j \<le> length p \<Longrightarrow> take j (p @ z) = take j p"
  by simp

lemma no_false_token:
  assumes w: "w \<noteq> []" and p: "prefix w s" and n: "\<not> startsWith s ''__SRLC_TPL_''"
  shows "matchToken (w @ tplToken n' @ y) = None"
proof (cases "startsWith (w @ tplToken n' @ y) ''__SRLC_TPL_''")
  case False
  then show ?thesis by (rule matchToken_no_prefix)
next
  case True
  let ?P = "''__SRLC_TPL_''"
  let ?k = "length w"
  from True have t: "take 11 (w @ tplToken n' @ y) = ?P" by (simp only: startsWith_token_prefix)
  show ?thesis
  proof (cases "?k \<le> 10")
    case False
    then have a: "take 11 (w @ tplToken n' @ y) = take 11 w" by simp
    from p obtain z where "s = w @ z" by (auto simp: prefix_def)
    then have "take 11 s = take 11 w" using False by simp
    also have "\<dots> = ?P" by (rule trans [OF a [symmetric] t])
    finally have "startsWith s ?P" by (simp only: startsWith_token_prefix)
    with n show ?thesis by simp
  next
    case le: True
    have "take 11 (w @ tplToken n' @ y) = w @ take (11 - ?k) (tplToken n' @ y)"
      using le by simp
    also have "take (11 - ?k) (tplToken n' @ y) = take (11 - ?k) ?P"
    proof -
      have "tplToken n' @ y = ?P @ (showNat n' @ ''__'' @ y)" by (simp add: tplToken_def)
      moreover have "11 - ?k \<le> length ?P" unfolding token_prefix_length by arith
      ultimately show ?thesis by (simp only: take_append_short)
    qed
    finally have e: "?P = w @ take (11 - ?k) ?P" using t by simp
    then have "drop ?k ?P = drop ?k (w @ take (11 - ?k) ?P)" by simp
    then have "drop ?k ?P = take (11 - ?k) ?P" by simp
    moreover have "0 < ?k" using w by simp
    ultimately have k: "?k = 10" using le token_prefix_overlap by blast
    from e have "take ?k ?P = take ?k (w @ take (11 - ?k) ?P)" by simp
    then have "w = take ?k ?P" by simp
    then have "w = ''__SRLC_TPL''" unfolding k by simp
    then show ?thesis
      by (simp add: matchToken_def tplToken_def startsWith_def isDigit_def)
  qed
qed

lemma includesStr_Cons:
  "\<not> includesStr (c # cs) p \<Longrightarrow> \<not> startsWith (c # cs) p \<and> \<not> includesStr cs p"
  by simp

lemma protectFrom_roundtrip:
  "\<not> includesStr s ''__SRLC_TPL_'' \<Longrightarrow> prefix (snd (protectFrom ps s)) final \<Longrightarrow>
   restoreFrom final (fst (protectFrom ps s)) = s"
proof (induction ps s rule: protectFrom.induct)
  case (1 ps)
  then show ?case by simp
next
  case (2 ps c cs)
  from 2(3) have ns: "\<not> startsWith (c # cs) ''__SRLC_TPL_''"
    and nc: "\<not> includesStr cs ''__SRLC_TPL_''" by simp_all
  show ?case
  proof (cases "matchTemplate (c # cs)")
    case None
    let ?out = "fst (protectFrom ps cs)"
    have f: "fst (protectFrom ps (c # cs)) = c # ?out"
      and sn: "snd (protectFrom ps (c # cs)) = snd (protectFrom ps cs)"
      using None by (simp_all add: split_beta)
    have ih: "restoreFrom final ?out = cs"
      using 2(1) [OF None nc] 2(4) sn by simp
    have nm: "matchToken (c # ?out) = None"
    proof -
      from protectFrom_first [of ps cs] consider
        (same) "?out = cs"
        | (tok) u n y where "prefix u cs" "?out = u @ tplToken n @ y"
        by blast
      then show ?thesis
      proof cases
        case same
        with ns show ?thesis by (simp add: matchToken_no_prefix)
      next
        case tok
        have "matchToken ((c # u) @ tplToken n @ y) = None"
          by (rule no_false_token [where s = "c # cs"]) (use tok ns in simp_all)
        with tok show ?thesis by simp
      qed
    qed
    show ?thesis unfolding f using nm ih by simp
  next
    case (Some mr)
    obtain m rest where mr: "mr = (m, rest)" by (cases mr)
    let ?out = "fst (protectFrom (ps @ [m]) rest)"
    have f: "fst (protectFrom ps (c # cs)) = tplToken (length ps) @ ?out"
      and sn: "snd (protectFrom ps (c # cs)) = snd (protectFrom (ps @ [m]) rest)"
      using Some mr by (simp_all add: split_beta)
    have sp: "c # cs = m @ rest"
      using Some mr by (simp add: matchTemplate_splits)
    have "\<not> includesStr rest ''__SRLC_TPL_''"
      using 2(3) includesStr_suffix [of rest _ m] unfolding sp by blast
    then have ih: "restoreFrom final ?out = rest"
      using 2(2) [OF Some mr [symmetric]] 2(4) sn by simp
    have "prefix (ps @ [m]) final"
      using protectFrom_grows [of "ps @ [m]" rest] 2(4) sn by (metis prefix_order.trans)
    then obtain z where "final = ps @ [m] @ z" by (auto simp: prefix_def)
    then have "placeholderAt final (length ps) = m"
      by (simp add: placeholderAt_def nth_append)
    then show ?thesis
      unfolding f by (simp add: restoreFrom_token ih sp)
  qed
qed

text \<open>
  Claim C1 (template guard round trip), as amended. For every input that does not contain
  the text \<^verbatim>\<open>__SRLC_TPL_\<close>, and for every input without a template expression (the
  placeholder list of \<^verbatim>\<open>protectTemplateSyntax\<close> is empty), \<^verbatim>\<open>restoreTemplateSyntax\<close> applied to
  the guarded text and the placeholder list of \<^verbatim>\<open>protectTemplateSyntax\<close> returns the input.
\<close>

theorem template_roundtrip:
  assumes "\<not> includesStr html ''__SRLC_TPL_'' \<or> snd (protectTemplateSyntax html) = []"
  shows "restoreTemplateSyntax (fst (protectTemplateSyntax html)) (snd (protectTemplateSyntax html)) = html"
proof (cases "snd (protectTemplateSyntax html) = []")
  case True
  then have "fst (protectFrom [] html) = html"
    using protectFrom_none [of "[]" html] by (simp add: protectTemplateSyntax_def)
  with True show ?thesis
    by (simp add: restoreTemplateSyntax_def protectTemplateSyntax_def)
next
  case False
  with assms have "\<not> includesStr html ''__SRLC_TPL_''" by blast
  then have "restoreFrom (snd (protectFrom [] html)) (fst (protectFrom [] html)) = html"
    by (rule protectFrom_roundtrip) simp
  with False show ?thesis
    by (simp add: restoreTemplateSyntax_def protectTemplateSyntax_def)
qed

lemma showNat_small: "showNat 0 = ''0''" "showNat 1 = ''1''" "showNat 2 = ''2''"
  by (subst showNat.simps, simp)+

text \<open>
  An input with template expressions that satisfies the hypothesis of C1: adjacent
  expressions, a nested-looking one and an unclosed one.
\<close>

theorem template_roundtrip_witness:
  "\<not> includesStr ''<p>{{a}}{{b}} _ {{ {{c}} }} {{d</p>'' ''__SRLC_TPL_'' \<and>
   restoreTemplateSyntax (fst (protectTemplateSyntax ''<p>{{a}}{{b}} _ {{ {{c}} }} {{d</p>''))
     (snd (protectTemplateSyntax ''<p>{{a}}{{b}} _ {{ {{c}} }} {{d</p>'')) =
   ''<p>{{a}}{{b}} _ {{ {{c}} }} {{d</p>''"
proof -
  have n: "\<not> includesStr ''<p>{{a}}{{b}} _ {{ {{c}} }} {{d</p>'' ''__SRLC_TPL_''"
    by (simp add: startsWith_def)
  then have "\<not> includesStr ''<p>{{a}}{{b}} _ {{ {{c}} }} {{d</p>'' ''__SRLC_TPL_'' \<or>
      snd (protectTemplateSyntax ''<p>{{a}}{{b}} _ {{ {{c}} }} {{d</p>'') = []"
    by (rule disjI1)
  from template_roundtrip [OF this] n show ?thesis by blast
qed

text \<open>
  Claim C1 as stated fails: in \<^verbatim>\<open>__SRLC_TPL_0__{{x}}\<close> the guard replaces the template
  expression by the token that the input already contains, and the restoration replaces both.
\<close>

theorem template_roundtrip_counterexample:
  "restoreTemplateSyntax (fst (protectTemplateSyntax ''__SRLC_TPL_0__{{x}}''))
     (snd (protectTemplateSyntax ''__SRLC_TPL_0__{{x}}'')) = ''{{x}}{{x}}'' \<and>
   restoreTemplateSyntax (fst (protectTemplateSyntax ''__SRLC_TPL_0__{{x}}''))
     (snd (protectTemplateSyntax ''__SRLC_TPL_0__{{x}}'')) \<noteq> ''__SRLC_TPL_0__{{x}}''"
  by (simp add: protectTemplateSyntax_def restoreTemplateSyntax_def matchTemplate_def
      matchToken_def tplToken_def placeholderAt_def parseDigits_def digitVal_def isDigit_def
      startsWith_def showNat_small)

section \<open>Analysis: proofs\<close>

lemma analyzeAnchor_invalid:
  assumes "\<not> validAnchor newURL (snd x)"
  shows "analyzeAnchor newURL domain (st, ws) k x = Inr (st, ws @ brokenWarning newURL (snd x))"
proof -
  obtain r where r: "normalizeUrl newURL (orEmpty (getAttribute (snd x) ''href'')) = Inr r"
    using normalizeUrl_returns by blast
  with assms have "r = None \<or> r = Some []"
    by (auto simp: validAnchor_def validHref_def split: option.splits)
  with r assms show ?thesis
    by (auto simp: analyzeAnchor_def brokenWarning_def validAnchor_def Let_def)
qed

lemma analyzeAnchor_valid:
  assumes "validAnchor newURL (snd x)"
    and "analyzeAnchor newURL domain (st, ws) k x = Inr (st', ws')"
  shows "ws' = ws \<and> links st' = links st @ [length (links st)] \<and>
    rawIndex (heap st' (length (links st))) = k \<and>
    (\<forall>r. r \<noteq> length (links st) \<longrightarrow> heap st' r = heap st r)"
proof -
  obtain n where r: "normalizeUrl newURL (orEmpty (getAttribute (snd x) ''href'')) = Inr (Some n)"
    and n: "n \<noteq> []"
    using assms(1) by (auto simp: validAnchor_def validHref_def split: sum.splits option.splits)
  from assms(2) show ?thesis
    unfolding analyzeAnchor_def Let_def r
    by (simp add: n split: option.splits if_splits) auto
qed

lemma analyze_loop:
  assumes "forEachIndexed (analyzeAnchor newURL domain) (st, ws) k xs = Inr (st', ws')"
  shows "ws' = ws @ concat (map (\<lambda>x. brokenWarning newURL (snd x)) xs) \<and>
    links st' = links st @ [length (links st)..<length (links st) + length (filter (\<lambda>x. validAnchor newURL (snd x)) xs)] \<and>
    (\<forall>r < length (links st). heap st' r = heap st r) \<and>
    (\<forall>r. length (links st) \<le> r \<and> r < length (links st') \<longrightarrow>
       (\<exists>j < length xs. rawIndex (heap st' r) = k + j \<and> validAnchor newURL (snd (xs ! j))))"
  using assms
proof (induction xs arbitrary: st ws k)
  case Nil
  then show ?case by simp
next
  case (Cons x xs)
  show ?case
  proof (cases "validAnchor newURL (snd x)")
    case False
    have b: "brokenWarning newURL (snd x) = [] \<or> (\<exists>w. brokenWarning newURL (snd x) = [w])"
      by (simp add: brokenWarning_def Let_def)
    from Cons.prems have "forEachIndexed (analyzeAnchor newURL domain)
        (st, ws @ brokenWarning newURL (snd x)) (Suc k) xs = Inr (st', ws')"
      by (simp add: analyzeAnchor_invalid [OF False])
    from Cons.IH [OF this] False show ?thesis
      by (auto simp: less_Suc_eq_0_disj)
  next
    case True
    from Cons.prems obtain st1 ws1 where
      s: "analyzeAnchor newURL domain (st, ws) k x = Inr (st1, ws1)"
      and l: "forEachIndexed (analyzeAnchor newURL domain) (st1, ws1) (Suc k) xs = Inr (st', ws')"
      by (auto split: sum.splits)
    from analyzeAnchor_valid [OF True s] have
      w1: "ws1 = ws" and l1: "links st1 = links st @ [length (links st)]"
      and r1: "rawIndex (heap st1 (length (links st))) = k"
      and h1: "\<forall>r. r \<noteq> length (links st) \<longrightarrow> heap st1 r = heap st r"
      by simp_all
    note ih = Cons.IH [OF l]
    have len1: "length (links st1) = Suc (length (links st))" by (simp add: l1)
    have A: "ws' = ws @ concat (map (\<lambda>x. brokenWarning newURL (snd x)) (x # xs))"
      using ih True w1 by (simp add: brokenWarning_def validAnchor_def)
    have B: "links st' = links st @ [length (links st)..<length (links st) +
        length (filter (\<lambda>x. validAnchor newURL (snd x)) (x # xs))]"
    proof -
      let ?n = "length (links st)"
      let ?c = "length (filter (\<lambda>x. validAnchor newURL (snd x)) xs)"
      have "links st' = links st @ [?n] @ [Suc ?n..<Suc ?n + ?c]"
        using ih by (simp add: l1)
      also have "[?n] @ [Suc ?n..<Suc ?n + ?c] = [?n..<?n + Suc ?c]"
      proof -
        have "?n < ?n + Suc ?c" by simp
        then have "[?n..<?n + Suc ?c] = ?n # [Suc ?n..<?n + Suc ?c]"
          by (rule upt_conv_Cons)
        then show ?thesis by (simp only: append_Cons append_Nil add_Suc add_Suc_right)
      qed
      finally show ?thesis using True by (simp del: upt_Suc)
    qed
    have C: "\<forall>r < length (links st). heap st' r = heap st r"
      using ih h1 len1 by simp
    have D: "\<exists>j < length (x # xs). rawIndex (heap st' r) = k + j \<and>
        validAnchor newURL (snd ((x # xs) ! j))"
      if r: "length (links st) \<le> r \<and> r < length (links st')" for r
    proof (cases "r = length (links st)")
      case eq: True
      with ih len1 have "heap st' r = heap st1 r" by simp
      with eq r1 True show ?thesis by (intro exI [of _ 0]) simp
    next
      case False
      with r have "length (links st1) \<le> r \<and> r < length (links st')" by (simp add: len1)
      with ih obtain j where "j < length xs" "rawIndex (heap st' r) = Suc k + j"
        "validAnchor newURL (snd (xs ! j))" by blast
      then show ?thesis by (intro exI [of _ "Suc j"]) simp
    qed
    from A B C D show ?thesis by blast
  qed
qed


lemma analyzeDom_Inr:
  assumes "analyzeDom newURL domain body = Inr r"
  obtains st ws where
    "forEachIndexed (analyzeAnchor newURL domain) (emptyState, []) 0
       (querySelectorAllIn (containerOf body) sel_a_href) = Inr (st, ws)"
    and "inventory r = st"
    and "warnings r = ws @ concat (map groupWarnings (objectEntries (groups st))) @
           densityWarnings (containerOf body)"
    and "stats r = computeStats st"
proof -
  from assms obtain acc where
    a: "forEachIndexed (analyzeAnchor newURL domain) (emptyState, []) 0
       (querySelectorAllIn (containerOf body) sel_a_href) = Inr acc"
    and r: "r = \<lparr>inventory = fst acc,
          warnings = snd acc @ concat (map groupWarnings (objectEntries (groups (fst acc)))) @
            densityWarnings (containerOf body),
          stats = computeStats (fst acc)\<rparr>"
    by (auto simp: analyzeDom_def Let_def split: sum.splits)
  show ?thesis
    by (rule that [of "fst acc" "snd acc"]) (simp_all add: a r)
qed

text \<open>Every session that \<^verbatim>\<open>analyzeHtml\<close> returns satisfies the grouping invariant.\<close>

lemma addToGroup_links: "g_links (addToGroup g r img cta heading) = g_links g @ [r]"
  by (simp add: addToGroup_def Let_def)

lemma setProperty_new:
  "map_of kvs k = None \<Longrightarrow> setProperty kvs k v = kvs @ [(k, v)]"
proof (induction kvs)
  case Nil
  then show ?case by simp
next
  case (Cons kv kvs)
  then show ?case by (cases kv) (auto split: if_splits)
qed

lemma setProperty_old:
  "map_of kvs k = Some g \<Longrightarrow>
   \<exists>xs ys. kvs = xs @ (k, g) # ys \<and> setProperty kvs k v = xs @ (k, v) # ys"
proof (induction kvs)
  case Nil
  then show ?case by simp
next
  case (Cons kv kvs)
  show ?case
  proof (cases "fst kv = k")
    case True
    with Cons.prems have "kv = (k, g)" by (cases kv) simp
    then have "kv # kvs = [] @ (k, g) # kvs \<and> setProperty (kv # kvs) k v = [] @ (k, v) # kvs"
      by simp
    then show ?thesis by blast
  next
    case False
    with Cons.prems have "map_of kvs k = Some g" by (cases kv) (simp split: if_splits)
    from Cons.IH [OF this] obtain xs ys where
      "kvs = xs @ (k, g) # ys" "setProperty kvs k v = xs @ (k, v) # ys" by blast
    with False have "kv # kvs = (kv # xs) @ (k, g) # ys \<and>
        setProperty (kv # kvs) k v = (kv # xs) @ (k, v) # ys"
      by simp
    then show ?thesis by blast
  qed
qed

lemma analyzeAnchor_grouped:
  assumes "groupedOnce st"
    and "analyzeAnchor newURL domain (st, ws) k x = Inr (st', ws')"
  shows "groupedOnce st'"
proof (cases "validAnchor newURL (snd x)")
  case False
  from assms(2) have "st' = st"
    by (simp add: analyzeAnchor_invalid [OF False])
  with assms(1) show ?thesis by simp
next
  case True
  let ?r = "length (links st)"
  let ?f = "\<lambda>kg. g_links (snd (kg :: string \<times> group))"
  from assms(1) have d: "distinct (concat (map ?f (groups st)))"
    and s: "set (concat (map ?f (groups st))) = set (links st)"
    and l: "links st = [0..<?r]"
    by (simp_all add: groupedOnce_def)
  from l have fresh: "?r \<notin> set (links st)" by (metis atLeastLessThan_iff less_irrefl set_upt)
  have l': "links st' = links st @ [?r]"
    using analyzeAnchor_valid [OF True assms(2)] by simp
  then have L: "links st' = [0..<length (links st')]"
    using l by (metis length_append_singleton length_upt minus_nat.diff_0 upt_Suc_append zero_le)
  obtain n where n: "normalizeUrl newURL (orEmpty (getAttribute (snd x) ''href'')) = Inr (Some n)"
    and nn: "n \<noteq> []"
    using True by (auto simp: validAnchor_def validHref_def split: sum.splits option.splits)
  have "\<exists>xs g v ys. (groups st = xs @ (n, g) # ys \<and> groups st' = xs @ (n, v) # ys \<and>
          g_links v = g_links g @ [?r]) \<or>
        (\<exists>v. groups st' = groups st @ [(n, v)] \<and> g_links v = [?r])"
  proof (cases "map_of (groups st) n")
    case None
    with assms(2) have "\<exists>v. groups st' = groups st @ [(n, v)] \<and> g_links v = [?r]"
      unfolding analyzeAnchor_def Let_def n
      by (auto simp: nn setProperty_new addToGroup_links split: if_splits)
    then show ?thesis by blast
  next
    case (Some g)
    let ?v = "addToGroup g ?r (isImageLink_el (snd x))
        (\<not> isImageLink_el (snd x) \<and> isCtaLink_el (fst x) (snd x)) (isInHeading_el (fst x) (snd x))"
    from assms(2) Some have g': "groups st' = setProperty (groups st) n ?v"
      unfolding analyzeAnchor_def Let_def n by (auto simp: nn)
    from setProperty_old [OF Some, of ?v] obtain xs ys where
      "groups st = xs @ (n, g) # ys" "setProperty (groups st) n ?v = xs @ (n, ?v) # ys" by blast
    with g' have "groups st = xs @ (n, g) # ys \<and> groups st' = xs @ (n, ?v) # ys \<and>
        g_links ?v = g_links g @ [?r]"
      by (simp add: addToGroup_links)
    then show ?thesis by blast
  qed
  then consider
    (old) xs g v ys where "groups st = xs @ (n, g) # ys" "groups st' = xs @ (n, v) # ys"
      "g_links v = g_links g @ [?r]"
    | (new) v where "groups st' = groups st @ [(n, v)]" "g_links v = [?r]"
    by blast
  then have "distinct (concat (map ?f (groups st'))) \<and>
      set (concat (map ?f (groups st'))) = set (links st')"
  proof cases
    case old
    from d s fresh show ?thesis
      unfolding old(1) old(2) l' by (auto simp: old(3))
  next
    case new
    from d s fresh show ?thesis
      unfolding new(1) l' by (auto simp: new(2))
  qed
  with L show ?thesis by (simp add: groupedOnce_def)
qed

lemma forEach_grouped:
  "groupedOnce st \<Longrightarrow>
   forEachIndexed (analyzeAnchor newURL domain) (st, ws) k xs = Inr (st', ws') \<Longrightarrow>
   groupedOnce st'"
proof (induction xs arbitrary: st ws k)
  case Nil
  then show ?case by simp
next
  case (Cons x xs)
  from Cons.prems(2) obtain st1 ws1 where
    a: "analyzeAnchor newURL domain (st, ws) k x = Inr (st1, ws1)"
    and b: "forEachIndexed (analyzeAnchor newURL domain) (st1, ws1) (Suc k) xs = Inr (st', ws')"
    by (auto split: sum.splits)
  from analyzeAnchor_grouped [OF Cons.prems(1) a] b show ?case by (rule Cons.IH)
qed

lemma analyzeDom_grouped:
  assumes "analyzeDom newURL domain body = Inr r"
  shows "groupedOnce (inventory r)"
proof -
  from assms obtain st ws where
    "forEachIndexed (analyzeAnchor newURL domain) (emptyState, []) 0
       (querySelectorAllIn (containerOf body) sel_a_href) = Inr (st, ws)"
    and "inventory r = st"
    by (rule analyzeDom_Inr)
  moreover have "groupedOnce emptyState" by (simp add: groupedOnce_def emptyState_def)
  ultimately show ?thesis using forEach_grouped by blast
qed


text \<open>
  Analysis does not always return: for an anchor whose href normalizes to a name that the
  \<^verbatim>\<open>groups\<close> object inherits, \<^verbatim>\<open>g.links.push\<close> throws.
\<close>

lemma analyzeDom_inherited_key: "isl (analyzeDom basicURL [] inheritedKeyDoc)"
  by code_simp


lemma isDensity_broken: "filter isDensity (brokenWarning newURL a) = []"
  by (simp add: brokenWarning_def Let_def)

lemma isDensity_group: "filter isDensity (groupWarnings e) = []"
  by (simp add: groupWarnings_def Let_def)

lemma filter_concat_empty: "(\<And>x. filter P (f x) = []) \<Longrightarrow> filter P (concat (map f xs)) = []"
  by (induction xs) simp_all

lemma densityWarnings_eq:
  "densityWarnings c =
     map (\<lambda>p. Density (length (querySelectorAll p sel_a_href)) (trim (slice 0 60 (textContent p))))
       (filter (\<lambda>p. 5 \<le> length (querySelectorAll p sel_a_href)) (querySelectorAll c (sel_tag ''p'')))"
proof -
  have "concat (map (\<lambda>p. if 5 \<le> g p then [f p] else []) ps) = map f (filter (\<lambda>p. 5 \<le> g p) ps)"
    for f :: "node \<Rightarrow> warning" and g :: "node \<Rightarrow> nat" and ps
    by (induction ps) simp_all
  then show ?thesis by (simp add: densityWarnings_def Let_def)
qed

text \<open>
  Claim C6, as amended. When analysis returns a result, its density warnings are, in
  document order, one for each \<^verbatim>\<open>p\<close> element that contains 5 or more anchors with an href
  attribute, whatever \<^verbatim>\<open>normalizeUrl\<close> makes of the href, and no others: a paragraph gets
  a density warning if and only if it contains 5 or more such anchors, and then exactly
  one.
\<close>

theorem density_warnings:
  assumes "analyzeDom newURL domain body = Inr r"
  shows "filter isDensity (warnings r) =
     map (\<lambda>p. Density (length (querySelectorAll p sel_a_href)) (trim (slice 0 60 (textContent p))))
       (filter (\<lambda>p. 5 \<le> length (querySelectorAll p sel_a_href))
          (querySelectorAll (containerOf body) (sel_tag ''p'')))"
proof -
  let ?xs = "querySelectorAllIn (containerOf body) sel_a_href"
  from assms obtain st ws where
    loop: "forEachIndexed (analyzeAnchor newURL domain) (emptyState, []) 0 ?xs = Inr (st, ws)"
    and w: "warnings r = ws @ concat (map groupWarnings (objectEntries (groups st))) @
           densityWarnings (containerOf body)"
    by (rule analyzeDom_Inr)
  from analyze_loop [OF loop] have "ws = concat (map (\<lambda>x. brokenWarning newURL (snd x)) ?xs)"
    by simp
  then have "filter isDensity ws = []"
    by (simp add: filter_concat_empty isDensity_broken)
  moreover have "filter isDensity (concat (map groupWarnings (objectEntries (groups st)))) = []"
    by (simp add: filter_concat_empty isDensity_group)
  moreover have "filter isDensity (densityWarnings (containerOf body)) = densityWarnings (containerOf body)"
    by (simp add: densityWarnings_eq filter_map o_def)
  ultimately show ?thesis by (simp add: w densityWarnings_eq)
qed



text \<open>
  Claim C6 as stated fails: the paragraph of the example has five anchors with
  \<^verbatim>\<open>href="#"\<close>, none of them with a valid href, and it gets a density warning.
\<close>

theorem density_counterexample:
  "warnings (projr (analyzeDom basicURL [] fragmentLinksDoc)) = [Density 5 ''onetwothreefourfive''] \<and>
   filter (validAnchor basicURL) (querySelectorAll (hd fragmentLinksDoc) sel_a_href) = [] \<and>
   \<not> isl (analyzeDom basicURL [] fragmentLinksDoc)"
  by code_simp

text \<open>
  In the example the first paragraph has five anchors with an href (three of them valid)
  and the second has four: one density warning, for the first.
\<close>

theorem density_warnings_witness:
  "\<not> isl (analyzeDom basicURL [] denseDoc) \<and>
   filter isDensity (warnings (projr (analyzeDom basicURL [] denseDoc))) = [Density 5 ''See abtopcmail'']"
proof -
  let ?R = "projr (analyzeDom basicURL [] denseDoc)"
  have ok: "\<not> isl (analyzeDom basicURL [] denseDoc)" by code_simp
  then have r: "analyzeDom basicURL [] denseDoc = Inr ?R" by simp
  have e: "map (\<lambda>p. Density (length (querySelectorAll p sel_a_href)) (trim (slice 0 60 (textContent p))))
       (filter (\<lambda>p. 5 \<le> length (querySelectorAll p sel_a_href))
          (querySelectorAll (containerOf denseDoc) (sel_tag ''p''))) = [Density 5 ''See abtopcmail'']"
    by code_simp
  from density_warnings [OF r] ok show ?thesis by (simp only: e simp_thms)
qed

section \<open>Regenerating the HTML: proofs\<close>















text \<open>
  The whole pipeline on the example with three links to \<^verbatim>\<open>/product\<close>: analysis, auto-strip
  and regeneration. The second text link is unwrapped (its children stay in the
  paragraph), the image link and the first text link are kept, and the anchor without
  href loses its \<^verbatim>\<open>target\<close>.
\<close>

lemma pipeline_example:
  "cleanDom basicURL (applyAutoStrip (inventory (projr (analyzeDom basicURL [] productDoc)))) productDoc =
   Inr ([Element ''a'' [(''href'', ''/product'')] [Element ''img'' [(''src'', ''w.png'')] []],
         Element ''p'' []
           [Element ''a'' [(''href'', ''/product'')] [Text ''The Widget''],
            Text '' and again '',
            Text ''the '', Element ''b'' [] [Text ''widget'']],
         Element ''a'' [(''name'', ''top'')] [Text ''top'']], 1)"
  by code_simp

section \<open>Auto-strip: proofs\<close>

lemma applyWrites_append: "applyWrites (ws @ vs) h = applyWrites vs (applyWrites ws h)"
  by (induction ws arbitrary: h) auto

lemma applyWrites_at:
  "applyWrites ws h r = (case map_of (rev ws) r of None \<Rightarrow> h r | Some b \<Rightarrow> (h r)\<lparr>keep := b\<rparr>)"
proof (induction ws arbitrary: h)
  case Nil
  then show ?case by simp
next
  case (Cons w ws)
  show ?case
    by (cases w) (auto simp: Cons.IH map_of_append map_add_def split: option.splits)
qed

lemma sameFlags_applyWrites: "sameFlags h (applyWrites ws h)"
  by (simp add: sameFlags_def applyWrites_at split: option.splits)

lemma sameFlags_isImageLink: "sameFlags h h' \<Longrightarrow> isImageLink (h' r) = isImageLink (h r)"
proof -
  assume "sameFlags h h'"
  then have "isImageLink ((h' r)\<lparr>keep := True\<rparr>) = isImageLink ((h r)\<lparr>keep := True\<rparr>)"
    unfolding sameFlags_def by metis
  then show ?thesis by simp
qed

lemma sameFlags_isCtaLink: "sameFlags h h' \<Longrightarrow> isCtaLink (h' r) = isCtaLink (h r)"
proof -
  assume "sameFlags h h'"
  then have "isCtaLink ((h' r)\<lparr>keep := True\<rparr>) = isCtaLink ((h r)\<lparr>keep := True\<rparr>)"
    unfolding sameFlags_def by metis
  then show ?thesis by simp
qed

lemma sameFlags_anchorText: "sameFlags h h' \<Longrightarrow> anchorText (h' r) = anchorText (h r)"
proof -
  assume "sameFlags h h'"
  then have "anchorText ((h' r)\<lparr>keep := True\<rparr>) = anchorText ((h r)\<lparr>keep := True\<rparr>)"
    unfolding sameFlags_def by metis
  then show ?thesis by simp
qed

lemma keepFirstWrites_cong:
  "sameFlags h h' \<Longrightarrow> keepFirstWrites f h' rs = keepFirstWrites f h rs"
  by (induction rs arbitrary: f) (simp_all add: sameFlags_isImageLink sameFlags_isCtaLink)

lemma hasDifferentAnchors_cong:
  "sameFlags h h' \<Longrightarrow> hasDifferentAnchors (map h' rs) = hasDifferentAnchors (map h rs)"
  by (simp add: hasDifferentAnchors_def sameFlags_anchorText o_def)

lemma groupWrites_cong: "sameFlags h h' \<Longrightarrow> groupWrites h' g = groupWrites h g"
  unfolding groupWrites_def Let_def
  by (simp only: keepFirstWrites_cong hasDifferentAnchors_cong
      sameFlags_isImageLink sameFlags_isCtaLink)

lemma sameFlags_upd: "sameFlags h (h(r := (h r)\<lparr>keep := b\<rparr>))"
  by (simp add: sameFlags_def)

lemma keepEach_writes: "keepEach h rs = applyWrites (map (\<lambda>r. (r, True)) rs) h"
  by (induction rs arbitrary: h) simp_all

lemma keepFirstText_writes: "keepFirstText f h rs = applyWrites (keepFirstWrites f h rs) h"
proof (induction rs arbitrary: f h)
  case Nil
  then show ?case by simp
next
  case (Cons r rs)
  have c: "\<And>b f'. keepFirstWrites f' (h(r := (h r)\<lparr>keep := b\<rparr>)) rs = keepFirstWrites f' h rs"
    by (rule keepFirstWrites_cong) (rule sameFlags_upd)
  consider (prot) "isImageLink (h r) \<or> isCtaLink (h r)"
    | (first) "\<not> (isImageLink (h r) \<or> isCtaLink (h r))" "\<not> f"
    | (later) "\<not> (isImageLink (h r) \<or> isCtaLink (h r))" "f"
    by blast
  then show ?case
  proof cases
    case prot
    then have "keepFirstText f h (r # rs) = keepFirstText f (h(r := (h r)\<lparr>keep := True\<rparr>)) rs"
      by simp
    also have "\<dots> = applyWrites (keepFirstWrites f h rs) (h(r := (h r)\<lparr>keep := True\<rparr>))"
      by (simp only: Cons.IH c)
    also have "\<dots> = applyWrites (keepFirstWrites f h (r # rs)) h"
      using prot by simp
    finally show ?thesis .
  next
    case first
    then have "keepFirstText f h (r # rs) = keepFirstText True (h(r := (h r)\<lparr>keep := True\<rparr>)) rs"
      by simp
    also have "\<dots> = applyWrites (keepFirstWrites True h rs) (h(r := (h r)\<lparr>keep := True\<rparr>))"
      by (simp only: Cons.IH c)
    also have "\<dots> = applyWrites (keepFirstWrites f h (r # rs)) h"
      using first by simp
    finally show ?thesis .
  next
    case later
    then have "keepFirstText f h (r # rs) = keepFirstText f (h(r := (h r)\<lparr>keep := False\<rparr>)) rs"
      by simp
    also have "\<dots> = applyWrites (keepFirstWrites f h rs) (h(r := (h r)\<lparr>keep := False\<rparr>))"
      by (simp only: Cons.IH c)
    also have "\<dots> = applyWrites (keepFirstWrites f h (r # rs)) h"
      using later by simp
    finally show ?thesis .
  qed
qed

lemma stripGroup_writes: "stripGroup h g = applyWrites (groupWrites h g) h"
  by (simp add: stripGroup_def groupWrites_def Let_def keepEach_writes keepFirstText_writes)

lemma foldl_stripGroup_writes:
  "foldl stripGroup h gs = applyWrites (concat (map (groupWrites h) gs)) h"
proof (induction gs arbitrary: h)
  case Nil
  then show ?case by simp
next
  case (Cons g gs)
  have w: "groupWrites (applyWrites (groupWrites h g) h) = groupWrites h"
    by (rule ext) (rule groupWrites_cong [OF sameFlags_applyWrites])
  have "foldl stripGroup h (g # gs) = foldl stripGroup (applyWrites (groupWrites h g) h) gs"
    by (simp only: foldl_Cons stripGroup_writes)
  also have "\<dots> = applyWrites (concat (map (groupWrites h) gs)) (applyWrites (groupWrites h g) h)"
    by (simp only: Cons.IH w)
  also have "\<dots> = applyWrites (concat (map (groupWrites h) (g # gs))) h"
    by (simp add: applyWrites_append)
  finally show ?case .
qed

lemma applyWrites_idem: "applyWrites ws (applyWrites ws h) = applyWrites ws h"
  by (rule ext) (simp add: applyWrites_at split: option.splits)

text \<open>
  Claim C7 (auto-strip idempotence). For every session state, running \<^verbatim>\<open>applyAutoStrip\<close> a
  second time right after the first leaves the state as the first run left it: every Link
  object, hence every \<open>keep\<close> flag, is equal to its value after the first run. The state is
  arbitrary: no assumption on how the groups share Link objects.
\<close>

theorem autoStrip_idempotent:
  "applyAutoStrip (applyAutoStrip s) = applyAutoStrip s"
proof -
  let ?gs = "objectValues (groups s)"
  let ?W = "concat (map (groupWrites (heap s)) ?gs)"
  have "groupWrites (applyWrites ?W (heap s)) = groupWrites (heap s)"
    by (rule ext) (rule groupWrites_cong [OF sameFlags_applyWrites])
  then show ?thesis
    by (simp add: applyAutoStrip_def foldl_stripGroup_writes applyWrites_idem)
qed


lemma keepFirstWrites_fst: "map fst (keepFirstWrites f h rs) = rs"
  by (induction rs arbitrary: f) simp_all

lemma groupWrites_fst: "map fst (groupWrites h g) = g_links g"
  by (simp add: groupWrites_def Let_def keepFirstWrites_fst o_def)

lemma keepFirstWrites_protected:
  "(r, b) \<in> set (keepFirstWrites f h rs) \<Longrightarrow> isImageLink (h r) \<or> isCtaLink (h r) \<Longrightarrow> b"
  by (induction rs arbitrary: f) (auto split: if_splits)

lemma groupWrites_protected:
  "(r, b) \<in> set (groupWrites h g) \<Longrightarrow> isImageLink (h r) \<or> isCtaLink (h r) \<Longrightarrow> b"
  by (auto simp: groupWrites_def Let_def dest: keepFirstWrites_protected split: if_splits)

lemma mset_objectEntries: "mset (objectEntries kvs) = mset kvs"
  by (simp add: objectEntries_def)

lemma set_objectValues: "set (objectValues kvs) = snd ` set kvs"
proof -
  have "set (objectEntries kvs) = set kvs"
    using mset_objectEntries [of kvs] by (metis set_mset_mset)
  then show ?thesis by (simp add: objectValues_def)
qed

lemma mset_objectValues: "mset (objectValues kvs) = mset (map snd kvs)"
  by (simp add: objectValues_def mset_objectEntries)

lemma concat_map_mset_cong:
  "mset xs = mset ys \<Longrightarrow> mset (concat (map f xs)) = mset (concat (map f ys))"
proof -
  assume e: "mset xs = mset ys"
  have "\<And>zs. mset (concat (map f zs)) = (\<Sum>z\<in>#mset zs. mset (f z))"
    by (induct_tac zs) simp_all
  then show ?thesis by (simp add: e)
qed

lemma distinct_objectValues:
  "distinct (concat (map f (objectValues kvs))) = distinct (concat (map (\<lambda>kv. f (snd kv)) kvs))"
proof -
  have "mset (concat (map f (objectValues kvs))) = mset (concat (map f (map snd kvs)))"
    by (rule concat_map_mset_cong) (rule mset_objectValues)
  then have "distinct (concat (map f (objectValues kvs))) = distinct (concat (map f (map snd kvs)))"
    by (rule mset_eq_imp_distinct_iff)
  then show ?thesis by (simp add: o_def)
qed

lemma applyWrites_known:
  assumes "(r, b) \<in> set ws" and "distinct (map fst ws)"
  shows "applyWrites ws h r = (h r)\<lparr>keep := b\<rparr>"
proof -
  have "map_of (rev ws) r = Some b"
    using assms by (simp add: map_of_eq_Some_iff rev_map [symmetric])
  then show ?thesis by (simp add: applyWrites_at)
qed

lemma applyWrites_written:
  assumes "r \<in> fst ` set ws"
  shows "\<exists>b. (r, b) \<in> set ws \<and> applyWrites ws h r = (h r)\<lparr>keep := b\<rparr>"
proof -
  from assms have "r \<in> fst ` set (rev ws)" by simp
  then obtain b where m: "map_of (rev ws) r = Some b"
    by (metis domD dom_map_of_conv_image_fst)
  then have "(r, b) \<in> set ws" by (metis map_of_SomeD set_rev)
  with m show ?thesis by (auto simp: applyWrites_at)
qed

text \<open>
  Claim C3 (keep invariant for protected kinds). After \<^verbatim>\<open>applyAutoStrip\<close>, every Link that
  is a member of a group and whose \<open>isImageLink\<close> or \<open>isCtaLink\<close> flag is true has
  \<open>keep = true\<close>, however many such Links the group has. (The Links of an analysed
  session are the members of its groups: \<open>analyzeDom_grouped\<close>.)
\<close>

theorem autoStrip_keeps_protected:
  assumes "(k, g) \<in> set (groups s)" and "r \<in> set (g_links g)"
    and "isImageLink (heap (applyAutoStrip s) r) \<or> isCtaLink (heap (applyAutoStrip s) r)"
  shows "keep (heap (applyAutoStrip s) r)"
proof -
  let ?gs = "objectValues (groups s)"
  let ?W = "concat (map (groupWrites (heap s)) ?gs)"
  have h': "heap (applyAutoStrip s) = applyWrites ?W (heap s)"
    by (simp add: applyAutoStrip_def foldl_stripGroup_writes)
  have g: "g \<in> set ?gs"
    using assms(1) by (force simp: set_objectValues)
  have "r \<in> fst ` set (groupWrites (heap s) g)"
    using assms(2) by (metis groupWrites_fst set_map)
  with g have "r \<in> fst ` set ?W" by auto
  then obtain b where b: "(r, b) \<in> set ?W" "applyWrites ?W (heap s) r = (heap s r)\<lparr>keep := b\<rparr>"
    using applyWrites_written by blast
  from b(1) obtain g' where "(r, b) \<in> set (groupWrites (heap s) g')" by auto
  moreover have "isImageLink (heap s r) \<or> isCtaLink (heap s r)"
    using assms(3) by (simp add: h' b(2))
  ultimately have "b" using groupWrites_protected by blast
  then show ?thesis by (simp add: h' b(2))
qed

lemma keepFirstWrites_text:
  "distinct rs \<Longrightarrow> (r, b) \<in> set (keepFirstWrites f h rs) \<Longrightarrow>
   \<not> (isImageLink (h r) \<or> isCtaLink (h r)) \<Longrightarrow>
   b = (\<not> f \<and> r = hd (filter (\<lambda>r. \<not> isImageLink (h r) \<and> \<not> isCtaLink (h r)) rs))"
proof (induction rs arbitrary: f)
  case Nil
  then show ?case by simp
next
  case (Cons r0 rs)
  have in_rest: "r \<in> set rs" if "(r, b) \<in> set (keepFirstWrites f' h rs)" for f'
    using that by (metis keepFirstWrites_fst fst_conv image_eqI set_map)
  consider (prot) "isImageLink (h r0) \<or> isCtaLink (h r0)"
    | (first) "\<not> (isImageLink (h r0) \<or> isCtaLink (h r0))" "\<not> f"
    | (later) "\<not> (isImageLink (h r0) \<or> isCtaLink (h r0))" "f"
    by blast
  then show ?case
  proof cases
    case prot
    with Cons.prems have "(r, b) \<in> set (keepFirstWrites f h rs)" by auto
    with Cons.IH [of f] Cons.prems prot show ?thesis by auto
  next
    case first
    show ?thesis
    proof (cases "r = r0")
      case True
      with Cons.prems first in_rest show ?thesis by auto
    next
      case False
      with Cons.prems first have m: "(r, b) \<in> set (keepFirstWrites True h rs)" by auto
      with Cons.IH [of True] Cons.prems have "\<not> b" by auto
      with False first show ?thesis by auto
    qed
  next
    case later
    show ?thesis
    proof (cases "r = r0")
      case True
      with Cons.prems later in_rest show ?thesis by auto
    next
      case False
      with Cons.prems later have m: "(r, b) \<in> set (keepFirstWrites f h rs)" by auto
      with Cons.IH [of f] Cons.prems later show ?thesis by auto
    qed
  qed
qed

lemma hasDifferentAnchors_two:
  "hasDifferentAnchors [a, b] =
   (trim (toLowerCase (anchorText a)) \<noteq> trim (toLowerCase (anchorText b)))"
  by (simp add: hasDifferentAnchors_def)

text \<open>
  Claim C2 (auto-strip text policy). In a session where no Link is a member of two groups
  or twice a member of one (the references of all \<^verbatim>\<open>group.links\<close> lists together are
  distinct, as in every analysed session: \<open>analyzeDom_grouped\<close>), let \<open>ts\<close> be the text
  Links (neither image nor CTA) of a group, in the order of \<^verbatim>\<open>group.links\<close>.
  After \<^verbatim>\<open>applyAutoStrip\<close>: if there are exactly two and their lower-cased, trimmed anchor
  texts differ, both have \<open>keep = true\<close>; otherwise the first has \<open>keep = true\<close> and every
  later one has \<open>keep = false\<close>.
\<close>

theorem autoStrip_text_policy:
  assumes d: "distinct (concat (map (\<lambda>kg. g_links (snd kg)) (groups s)))"
    and g: "(k, g) \<in> set (groups s)"
    and ts: "ts = filter (\<lambda>r. \<not> isImageLink (heap s r) \<and> \<not> isCtaLink (heap s r)) (g_links g)"
  shows "if length ts = 2 \<and>
            trim (toLowerCase (anchorText (heap s (ts ! 0)))) \<noteq>
            trim (toLowerCase (anchorText (heap s (ts ! 1))))
         then \<forall>i < length ts. keep (heap (applyAutoStrip s) (ts ! i))
         else \<forall>i < length ts. keep (heap (applyAutoStrip s) (ts ! i)) = (i = 0)"
proof -
  let ?h = "heap s"
  let ?gs = "objectValues (groups s)"
  let ?W = "concat (map (groupWrites ?h) ?gs)"
  have h': "heap (applyAutoStrip s) = applyWrites ?W ?h"
    by (simp add: applyAutoStrip_def foldl_stripGroup_writes)
  have gin: "g \<in> set ?gs"
    using g by (force simp: set_objectValues)
  have "map fst ?W = concat (map g_links ?gs)"
    by (simp add: map_concat o_def groupWrites_fst)
  then have dW: "distinct (map fst ?W)"
    using d by (simp add: distinct_objectValues)
  have dg: "distinct (g_links g)"
  proof -
    have "distinct (concat (map g_links ?gs))" using d by (simp add: distinct_objectValues)
    with gin show ?thesis by (auto simp: distinct_concat_iff)
  qed
  then have dtl: "distinct ts" by (simp add: ts)
  have known: "keep (heap (applyAutoStrip s) r) = b" if "(r, b) \<in> set (groupWrites ?h g)" for r b
  proof -
    from that gin have "(r, b) \<in> set ?W" by auto
    then show ?thesis using applyWrites_known [OF _ dW] by (simp add: h')
  qed
  have two: "hasDifferentAnchors (map ?h ts) =
      (trim (toLowerCase (anchorText (?h (ts ! 0)))) \<noteq> trim (toLowerCase (anchorText (?h (ts ! 1)))))"
    if "length ts = 2"
  proof -
    from that obtain a b where "ts = [a, b]"
      by (auto simp: numeral_2_eq_2 length_Suc_conv)
    then show ?thesis by (simp add: hasDifferentAnchors_two)
  qed
  show ?thesis
  proof (cases "length ts = 2 \<and> hasDifferentAnchors (map ?h ts)")
    case True
    then have w: "groupWrites ?h g = map (\<lambda>r. (r, True)) (g_links g)"
      unfolding groupWrites_def Let_def ts by (rule if_P)
    have "keep (heap (applyAutoStrip s) (ts ! i))" if "i < length ts" for i
    proof -
      from that have "ts ! i \<in> set (g_links g)" using ts nth_mem by fastforce
      then have "(ts ! i, True) \<in> set (groupWrites ?h g)" by (simp add: w)
      then show ?thesis using known by blast
    qed
    then have a: "\<forall>i < length ts. keep (heap (applyAutoStrip s) (ts ! i))"
      by blast
    have c: "length ts = 2 \<and>
            trim (toLowerCase (anchorText (heap s (ts ! 0)))) \<noteq>
            trim (toLowerCase (anchorText (heap s (ts ! 1))))"
      using True two by blast
    show ?thesis by (subst if_P [OF c]) (rule a)
  next
    case False
    then have w: "groupWrites ?h g = keepFirstWrites False ?h (g_links g)"
      unfolding groupWrites_def Let_def ts by (rule if_not_P)
    have "keep (heap (applyAutoStrip s) (ts ! i)) = (i = 0)" if i: "i < length ts" for i
    proof -
      from i have m: "ts ! i \<in> set ts" by simp
      then have nprot: "\<not> (isImageLink (?h (ts ! i)) \<or> isCtaLink (?h (ts ! i)))"
        and ing: "ts ! i \<in> set (g_links g)" by (auto simp: ts)
      from ing have "ts ! i \<in> fst ` set (groupWrites ?h g)"
        by (simp only: set_map [symmetric] groupWrites_fst)
      then obtain b where b: "(ts ! i, b) \<in> set (groupWrites ?h g)" by auto
      then have m: "(ts ! i, b) \<in> set (keepFirstWrites False ?h (g_links g))"
        by (simp only: w)
      have "b = (\<not> False \<and> ts ! i =
          hd (filter (\<lambda>r. \<not> isImageLink (?h r) \<and> \<not> isCtaLink (?h r)) (g_links g)))"
        by (rule keepFirstWrites_text [OF dg m nprot])
      then have "b = (ts ! i = hd ts)"
        by (simp only: ts [symmetric] not_False_eq_True simp_thms)
      also have "\<dots> = (ts ! i = ts ! 0)"
      proof -
        from i have "ts \<noteq> []" by auto
        then show ?thesis by (simp add: hd_conv_nth)
      qed
      also have "\<dots> = (i = 0)"
        using i by (intro nth_eq_iff_index_eq [OF dtl]) auto
      finally show ?thesis using known [OF b] by simp
    qed
    then have a: "\<forall>i < length ts. keep (heap (applyAutoStrip s) (ts ! i)) = (i = 0)"
      by blast
    have c: "\<not> (length ts = 2 \<and>
            trim (toLowerCase (anchorText (heap s (ts ! 0)))) \<noteq>
            trim (toLowerCase (anchorText (heap s (ts ! 1)))))"
      using False two by blast
    show ?thesis by (subst if_not_P [OF c]) (rule a)
  qed
qed

lemma demo_objectValues: "objectValues (groups demoState) = [demoGuide, demoProduct]"
  by (simp add: demoState_def objectValues_def objectEntries_def isArrayIndex_def isDigit_def)

lemma demo_heap:
  "heap demoState 0 = demoLinks ! 0" "heap demoState 1 = demoLinks ! 1"
  "heap demoState 2 = demoLinks ! 2" "heap demoState 3 = demoLinks ! 3"
  "heap demoState 4 = demoLinks ! 4" "heap demoState 5 = demoLinks ! 5"
  "heap demoState (Suc 0) = demoLinks ! 1"
  by (simp_all add: demoState_def heapOf_def demoLinks_def)

text \<open>
  The example session satisfies the hypotheses of C2; its group \<^verbatim>\<open>/guide\<close> takes the first
  branch and its group \<^verbatim>\<open>/product\<close> the second.
\<close>

theorem autoStrip_text_policy_witness:
  "distinct (concat (map (\<lambda>kg. g_links (snd kg)) (groups demoState))) \<and>
   (''/guide'', demoGuide) \<in> set (groups demoState) \<and>
   (''/product'', demoProduct) \<in> set (groups demoState) \<and>
   keep (heap (applyAutoStrip demoState) 0) \<and> keep (heap (applyAutoStrip demoState) 1) \<and>
   keep (heap (applyAutoStrip demoState) 3) \<and> \<not> keep (heap (applyAutoStrip demoState) 4)"
proof -
  have d: "distinct (concat (map (\<lambda>kg. g_links (snd kg)) (groups demoState)))"
    by (simp add: demoState_def demoGuide_def demoProduct_def)
  have g1: "(''/guide'', demoGuide) \<in> set (groups demoState)"
    and g2: "(''/product'', demoProduct) \<in> set (groups demoState)"
    by (simp_all add: demoState_def)
  have t1: "[0, 1] = filter (\<lambda>r. \<not> isImageLink (heap demoState r) \<and> \<not> isCtaLink (heap demoState r))
      (g_links demoGuide)"
    by (simp add: demoGuide_def demo_heap demoLinks_def demoLink_def)
  have t2: "[3, 4] = filter (\<lambda>r. \<not> isImageLink (heap demoState r) \<and> \<not> isCtaLink (heap demoState r))
      (g_links demoProduct)"
    by (simp add: demoProduct_def demo_heap demoLinks_def demoLink_def)
  have n1: "trim (toLowerCase (anchorText (heap demoState 0))) \<noteq>
      trim (toLowerCase (anchorText (heap demoState 1)))"
    by (simp add: demo_heap demoLinks_def demoLink_def trim_def toLowerCase_def isWhiteSpace_def)
  have n2: "trim (toLowerCase (anchorText (heap demoState 3))) =
      trim (toLowerCase (anchorText (heap demoState 4)))"
    by (simp add: demo_heap demoLinks_def demoLink_def trim_def toLowerCase_def isWhiteSpace_def)
  have a: "\<forall>i<2. keep (heap (applyAutoStrip demoState) ([0, 1] ! i))"
    using autoStrip_text_policy [OF d g1 t1] n1 by simp
  have b: "\<forall>i<2. keep (heap (applyAutoStrip demoState) ([3, 4] ! i)) = (i = 0)"
    using autoStrip_text_policy [OF d g2 t2] n2 by simp
  have "keep (heap (applyAutoStrip demoState) 0)"
    using a [rule_format, of 0] by simp
  moreover have "keep (heap (applyAutoStrip demoState) 1)"
    using a [rule_format, of 1] by simp
  moreover have "keep (heap (applyAutoStrip demoState) 3)"
    using b [rule_format, of 0] by simp
  moreover have "\<not> keep (heap (applyAutoStrip demoState) 4)"
    using b [rule_format, of 1] by simp
  ultimately show ?thesis using d g1 g2 by simp
qed

text \<open>The image link of the example session satisfies the hypotheses of C3.\<close>

theorem autoStrip_keeps_protected_witness:
  "(''/product'', demoProduct) \<in> set (groups demoState) \<and> 2 \<in> set (g_links demoProduct) \<and>
   isImageLink (heap (applyAutoStrip demoState) 2) \<and> keep (heap (applyAutoStrip demoState) 2)"
proof -
  have g: "(''/product'', demoProduct) \<in> set (groups demoState)"
    by (simp add: demoState_def)
  have m: "2 \<in> set (g_links demoProduct)"
    by (simp add: demoProduct_def)
  have h: "heap (applyAutoStrip demoState) = foldl stripGroup (heap demoState) [demoGuide, demoProduct]"
    by (simp add: applyAutoStrip_def demo_objectValues)
  have i: "isImageLink (heap (applyAutoStrip demoState) 2)"
    by (simp add: sameFlags_isImageLink [OF sameFlags_applyWrites] applyAutoStrip_def
        foldl_stripGroup_writes demo_heap demoLinks_def demoLink_def)
  then have p: "isImageLink (heap (applyAutoStrip demoState) 2) \<or> isCtaLink (heap (applyAutoStrip demoState) 2)"
    by simp
  from autoStrip_keeps_protected [OF g m p] g m i show ?thesis by simp
qed


section \<open>Toggling: proofs\<close>

text \<open>
  Claim C10 (toggle no-op for protected kinds). If no Link of \<^verbatim>\<open>state.links\<close> has the given
  id, or the Link that \<^verbatim>\<open>find\<close> returns for the id has \<open>isImageLink\<close> or \<open>isCtaLink\<close> true,
  \<^verbatim>\<open>toggleLink\<close> leaves the whole link inventory as it is. Whenever a toggle changes the
  \<open>keep\<close> flag of a Link, that Link is neither image nor CTA, has the given id and is in
  \<^verbatim>\<open>state.links\<close>.
\<close>

theorem toggleLink_protected_noop:
  "((\<forall>r\<in>set (links s). id' (heap s r) \<noteq> i) \<longrightarrow> toggleLink s i = s) \<and>
   (\<forall>r. find (\<lambda>r. id' (heap s r) = i) (links s) = Some r \<and>
        (isImageLink (heap s r) \<or> isCtaLink (heap s r)) \<longrightarrow> toggleLink s i = s) \<and>
   (\<forall>r. keep (heap (toggleLink s i) r) \<noteq> keep (heap s r) \<longrightarrow>
        \<not> isImageLink (heap s r) \<and> \<not> isCtaLink (heap s r) \<and> id' (heap s r) = i \<and>
        r \<in> set (links s))"
proof (intro conjI allI impI)
  assume "\<forall>r\<in>set (links s). id' (heap s r) \<noteq> i"
  then have "find (\<lambda>r. id' (heap s r) = i) (links s) = None"
    by (simp add: find_None_iff)
  then show "toggleLink s i = s" by (simp add: toggleLink_def)
next
  fix r
  assume "find (\<lambda>r. id' (heap s r) = i) (links s) = Some r \<and>
    (isImageLink (heap s r) \<or> isCtaLink (heap s r))"
  then show "toggleLink s i = s" by (auto simp: toggleLink_def)
next
  fix r
  assume c: "keep (heap (toggleLink s i) r) \<noteq> keep (heap s r)"
  show "\<not> isImageLink (heap s r)" "\<not> isCtaLink (heap s r)" "id' (heap s r) = i" "r \<in> set (links s)"
    using c by (auto simp: toggleLink_def find_Some_iff split: option.splits if_splits)
qed

text \<open>
  In the example session no Link has id 99, the Link with id 2 is an image link, and
  toggling the text Link with id 4 flips its flag.
\<close>

theorem toggleLink_protected_noop_witness:
  "find (\<lambda>r. id' (heap demoState r) = 99) (links demoState) = None \<and>
   toggleLink demoState 99 = demoState \<and>
   find (\<lambda>r. id' (heap demoState r) = 2) (links demoState) = Some 2 \<and>
   isImageLink (heap demoState 2) \<and> toggleLink demoState 2 = demoState \<and>
   keep (heap demoState 4) \<and> \<not> keep (heap (toggleLink demoState 4) 4) \<and>
   \<not> isImageLink (heap demoState 4) \<and> \<not> isCtaLink (heap demoState 4)"
proof -
  have ids: "map (\<lambda>r. id' (heap demoState r)) (links demoState) = [0, 1, 2, 3, 4, 5]"
    by (simp add: demoState_def heapOf_def demoLinks_def demoLink_def)
  have n: "\<forall>r\<in>set (links demoState). id' (heap demoState r) \<noteq> 99"
    using ids by (simp add: demoState_def heapOf_def demoLinks_def demoLink_def)
  have f0: "find (\<lambda>r. id' (heap demoState r) = 99) (links demoState) = None"
    using n by (simp add: find_None_iff)
  have f2: "find (\<lambda>r. id' (heap demoState r) = 2) (links demoState) = Some 2"
    by (simp add: demoState_def heapOf_def demoLinks_def demoLink_def)
  have i2: "isImageLink (heap demoState 2)"
    by (simp add: demo_heap demoLinks_def demoLink_def)
  have k4: "keep (heap demoState 4)"
    by (simp add: demo_heap demoLinks_def demoLink_def)
  have t4: "\<not> keep (heap (toggleLink demoState 4) 4)"
    by (simp add: toggleLink_def demoState_def heapOf_def demoLinks_def demoLink_def)
  have a: "toggleLink demoState 99 = demoState"
    using toggleLink_protected_noop [of demoState 99] n by blast
  have b: "toggleLink demoState 2 = demoState"
    using toggleLink_protected_noop [of demoState 2] f2 i2 by blast
  have c: "\<not> isImageLink (heap demoState 4) \<and> \<not> isCtaLink (heap demoState 4)"
    using toggleLink_protected_noop [of demoState 4] k4 t4 by blast
  show ?thesis using f0 a f2 i2 b k4 t4 c by simp
qed

end
